theory Spec2Isabelle
  imports Main "HOL-Library.Word" "HOL-Library.Sublist" "HOL-Library.Multiset"
begin

unbundle bit_operations_syntax


section \<open>Fundamental types (types.hpp)\<close>

text \<open>
  All identifiers, quantities, timestamps and counters of the engine are \<open>uint64_t\<close>;
  \<open>Price\<close> is \<open>int64_t\<close>.  Both are 64-bit words here; a price is read through
  \<open>sint\<close> wherever the source compares prices.  Member names lose the trailing
  underscore they have in the source (\<open>orders_\<close> is \<open>orders\<close>), and a field whose
  name several structs share carries a prefix in all but the first.
\<close>
type_synonym OrderId = "64 word"
type_synonym TraderId = "64 word"
type_synonym TradeId = "64 word"
type_synonym Price = "64 word"
type_synonym Quantity = "64 word"
type_synonym Timestamp = "64 word"
type_synonym byte = "8 word"

datatype Side = BUY | SELL
datatype TimeInForce = DAY | IOC | FOK | GTC | GTD
datatype OrderType = LIMIT | MARKET
datatype STPPolicy = NONE | CANCEL_INCOMING | CANCEL_RESTING | CANCEL_BOTH

definition INVALID_PRICE :: Price where
  "INVALID_PRICE = - 1"

definition INVALID_TRADER_ID :: TraderId where
  "INVALID_TRADER_ID = 0"

section \<open>Orders and trade events (order.hpp, events.hpp)\<close>

record Order =
  order_id :: OrderId
  trader_id :: TraderId
  symbol :: string
  side :: Side
  order_type :: OrderType
  price :: Price
  quantity :: Quantity
  remaining_quantity :: Quantity
  time_in_force :: TimeInForce
  timestamp :: Timestamp
  post_only :: bool
  hidden :: bool
  display_quantity :: Quantity

definition is_buy :: "Order \<Rightarrow> bool" where
  "is_buy ord = (side ord = BUY)"

definition is_sell :: "Order \<Rightarrow> bool" where
  "is_sell ord = (side ord = SELL)"

definition is_limit :: "Order \<Rightarrow> bool" where
  "is_limit ord = (order_type ord = LIMIT)"

definition is_market :: "Order \<Rightarrow> bool" where
  "is_market ord = (order_type ord = MARKET)"

definition is_ioc :: "Order \<Rightarrow> bool" where
  "is_ioc ord = (time_in_force ord = IOC)"

definition is_fok :: "Order \<Rightarrow> bool" where
  "is_fok ord = (time_in_force ord = FOK)"

record TradeEvent =
  trade_id :: TradeId
  t_symbol :: string
  t_price :: Price
  t_quantity :: Quantity
  aggressor_side :: Side
  aggressive_order_id :: OrderId
  passive_order_id :: OrderId
  aggressive_trader_id :: TraderId
  passive_trader_id :: TraderId
  t_timestamp :: Timestamp
  sequence_number :: "64 word"


section \<open>Market data views (market_data.hpp)\<close>

text \<open>
  The fields of \<open>PriceLevel\<close> and \<open>DepthSnapshot\<close> carry a prefix, since the
  field names \<open>price\<close>, \<open>quantity\<close>, \<open>symbol\<close> and \<open>timestamp\<close> are those of an
  order as well.
\<close>

record PriceLevel =
  pl_price :: Price
  pl_quantity :: Quantity
  order_count :: "32 word"

record DepthSnapshot =
  ds_symbol :: string
  ds_bids :: "PriceLevel list"
  ds_asks :: "PriceLevel list"
  ds_timestamp :: Timestamp
  ds_sequence_number :: "64 word"

text \<open>A default-constructed \<open>DepthSnapshot\<close>.\<close>

definition empty_snapshot :: DepthSnapshot where
  "empty_snapshot =
     \<lparr>ds_symbol = [], ds_bids = [], ds_asks = [], ds_timestamp = 0, ds_sequence_number = 0\<rparr>"


section \<open>The order book (order_book.hpp, order_book.cpp)\<close>

text \<open>
  An \<open>Order*\<close> is an address.  The book's index \<open>orders\<close> owns the orders
  (\<open>unique_ptr\<close>): \<open>heap\<close> holds the objects that are alive, and erasing or
  overwriting an index entry frees its object.  The queues of the price levels hold plain
  addresses, which may dangle.  \<open>next_addr\<close> is the allocator: \<open>make_unique\<close>
  returns an address that was never used before.
\<close>

type_synonym addr = int

record PriceLevelQueue =
  queue_orders :: "addr list"
  total_quantity :: Quantity

type_synonym ladder = "(Price \<times> PriceLevelQueue) list"

record OrderBook =
  book_symbol :: string
  stp_policy :: STPPolicy
  bids :: ladder
  asks :: ladder
  orders :: "OrderId \<rightharpoonup> addr"
  heap :: "addr \<rightharpoonup> Order"
  next_addr :: addr
  next_trade_id :: TradeId
  trade_count :: "64 word"
  total_volume :: "64 word"

text \<open>
  What the source leaves undefined: reading an order through a dangling pointer, using
  the reference \<open>queue\<close> after its map node was erased, and a loop that can never
  leave its current state.
\<close>

datatype fault = UseAfterFree | DanglingLevel | NoProgress

definition new_book :: "string \<Rightarrow> STPPolicy \<Rightarrow> OrderBook" where
  "new_book name pol =
     \<lparr>book_symbol = name, stp_policy = pol, bids = [], asks = [],
      orders = Map.empty, heap = Map.empty, next_addr = 0,
      next_trade_id = 1, trade_count = 0, total_volume = 0\<rparr>"

subsection \<open>PriceLevelQueue\<close>

definition empty_level :: PriceLevelQueue where
  "empty_level = \<lparr>queue_orders = [], total_quantity = 0\<rparr>"

text \<open>\<open>PriceLevelQueue::add_order\<close>; \<open>ord\<close> is the order at address \<open>a\<close>.\<close>

definition plq_add_order :: "PriceLevelQueue \<Rightarrow> addr \<Rightarrow> Order \<Rightarrow> PriceLevelQueue" where
  "plq_add_order q a ord =
     q\<lparr>queue_orders := queue_orders q @ [a],
       total_quantity := total_quantity q + remaining_quantity ord\<rparr>"

text \<open>\<open>PriceLevelQueue::remove_order\<close>: \<open>std::find\<close>, then erase the first match.\<close>

definition plq_remove_order :: "PriceLevelQueue \<Rightarrow> addr \<Rightarrow> Order \<Rightarrow> PriceLevelQueue" where
  "plq_remove_order q a ord =
     (if a \<in> set (queue_orders q)
      then q\<lparr>queue_orders := remove1 a (queue_orders q),
             total_quantity := total_quantity q - remaining_quantity ord\<rparr>
      else q)"

subsection \<open>The two ladders\<close>

text \<open>
  \<open>bids\<close> is a \<open>std::map\<close> ordered by \<open>std::greater<Price>\<close>, \<open>asks\<close> by
  \<open>std::less<Price>\<close>: association lists kept in key order, best level first.
  \<open>before sd\<close> is the key order of the ladder of side \<open>sd\<close>.
\<close>

definition before :: "Side \<Rightarrow> Price \<Rightarrow> Price \<Rightarrow> bool" where
  "before sd p p' = (case sd of BUY \<Rightarrow> sint p' < sint p | SELL \<Rightarrow> sint p < sint p')"

definition ladder :: "Side \<Rightarrow> OrderBook \<Rightarrow> ladder" where
  "ladder sd b = (case sd of BUY \<Rightarrow> bids b | SELL \<Rightarrow> asks b)"

definition set_ladder :: "Side \<Rightarrow> ladder \<Rightarrow> OrderBook \<Rightarrow> OrderBook" where
  "set_ladder sd l b = (case sd of BUY \<Rightarrow> b\<lparr>bids := l\<rparr> | SELL \<Rightarrow> b\<lparr>asks := l\<rparr>)"

text \<open>
  \<open>map.find\<close>; \<open>map[key]\<close>, which inserts the key when it is new; a change of the
  level that an iterator points to; and \<open>map.erase\<close>.
\<close>

definition level_find :: "Price \<Rightarrow> ladder \<Rightarrow> PriceLevelQueue option" where
  "level_find p l = map_of l p"

fun level_put :: "Side \<Rightarrow> Price \<Rightarrow> PriceLevelQueue \<Rightarrow> ladder \<Rightarrow> ladder" where
  "level_put sd p q [] = [(p, q)]"
| "level_put sd p q ((p', q') # l) =
     (if p = p' then (p, q) # l
      else if before sd p p' then (p, q) # (p', q') # l
      else (p', q') # level_put sd p q l)"

fun level_update :: "Price \<Rightarrow> PriceLevelQueue \<Rightarrow> ladder \<Rightarrow> ladder" where
  "level_update p q [] = []"
| "level_update p q ((p', q') # l) =
     (if p' = p then (p', q) # l else (p', q') # level_update p q l)"

fun level_erase :: "Price \<Rightarrow> ladder \<Rightarrow> ladder" where
  "level_erase p [] = []"
| "level_erase p ((p', q') # l) =
     (if p' = p then l else (p', q') # level_erase p l)"

subsection \<open>Book maintenance\<close>

text \<open>\<open>OrderBook::add_to_book\<close>: \<open>bids[order->price].add_order(order)\<close>.\<close>

definition add_to_book :: "OrderBook \<Rightarrow> addr \<Rightarrow> Order \<Rightarrow> OrderBook" where
  "add_to_book b a ord =
     (let sd = side ord;
          q = (case level_find (price ord) (ladder sd b) of None \<Rightarrow> empty_level | Some q \<Rightarrow> q)
      in set_ladder sd (level_put sd (price ord) (plq_add_order q a ord) (ladder sd b)) b)"

text \<open>\<open>OrderBook::remove_from_book\<close>.\<close>

definition remove_from_book :: "OrderBook \<Rightarrow> addr \<Rightarrow> Order \<Rightarrow> OrderBook" where
  "remove_from_book b a ord =
     (let sd = side ord in
      case level_find (price ord) (ladder sd b) of
        None \<Rightarrow> b
      | Some q \<Rightarrow>
          let q' = plq_remove_order q a ord in
          if queue_orders q' = []
          then set_ladder sd (level_erase (price ord) (ladder sd b)) b
          else set_ladder sd (level_update (price ord) q' (ladder sd b)) b)"

text \<open>\<open>orders.erase(id)\<close>: the entry goes, and with it the order it owns.\<close>

definition erase_order :: "OrderBook \<Rightarrow> OrderId \<Rightarrow> OrderBook" where
  "erase_order b oid =
     (case orders b oid of
        None \<Rightarrow> b
      | Some a \<Rightarrow> b\<lparr>orders := (orders b)(oid := None), heap := (heap b)(a := None)\<rparr>)"

text \<open>
  \<open>orders[id] = std::move(order_ptr)\<close> for an order that is about to rest: the order
  gets its address, and an order that the index held under the same id is destroyed.
\<close>

definition store_order :: "OrderBook \<Rightarrow> Order \<Rightarrow> addr \<times> OrderBook" where
  "store_order b ord =
     (let a = next_addr b;
          h = (case orders b (order_id ord) of None \<Rightarrow> heap b | Some old \<Rightarrow> (heap b)(old := None))
      in (a, b\<lparr>orders := (orders b)(order_id ord \<mapsto> a),
               heap := h(a \<mapsto> ord),
               next_addr := a + 1\<rparr>))"

text \<open>\<open>queue.pop_front()\<close> on the best level of side \<open>sd\<close>.\<close>

definition pop_front :: "Side \<Rightarrow> OrderBook \<Rightarrow> OrderBook" where
  "pop_front sd b =
     (case ladder sd b of
        [] \<Rightarrow> b
      | (p, q) # l \<Rightarrow> set_ladder sd ((p, q\<lparr>queue_orders := tl (queue_orders q)\<rparr>) # l) b)"

subsection \<open>Matching\<close>

definition would_self_trade :: "OrderBook \<Rightarrow> Order \<Rightarrow> Order \<Rightarrow> bool" where
  "would_self_trade b incoming resting =
     (if stp_policy b = NONE then False
      else trader_id incoming = trader_id resting \<and> trader_id incoming \<noteq> INVALID_TRADER_ID)"

text \<open>\<open>a\<close> is the address of \<open>resting\<close>.\<close>

definition handle_self_trade :: "OrderBook \<Rightarrow> Order \<Rightarrow> addr \<Rightarrow> Order \<Rightarrow> Order \<times> OrderBook" where
  "handle_self_trade b incoming a resting =
     (if stp_policy b = CANCEL_INCOMING then
        (incoming\<lparr>remaining_quantity := 0\<rparr>, b)
      else if stp_policy b = CANCEL_RESTING then
        (incoming, erase_order (remove_from_book b a resting) (order_id resting))
      else if stp_policy b = CANCEL_BOTH then
        (incoming\<lparr>remaining_quantity := 0\<rparr>,
         erase_order (remove_from_book b a resting) (order_id resting))
      else (incoming, b))"

definition create_trade ::
  "OrderBook \<Rightarrow> Order \<Rightarrow> Order \<Rightarrow> Quantity \<Rightarrow> Price \<Rightarrow> Timestamp \<Rightarrow> TradeEvent \<times> OrderBook" where
  "create_trade b aggressive passive qty p ts =
     (\<lparr>trade_id = next_trade_id b,
       t_symbol = book_symbol b,
       t_price = p,
       t_quantity = qty,
       aggressor_side = side aggressive,
       aggressive_order_id = order_id aggressive,
       passive_order_id = order_id passive,
       aggressive_trader_id = trader_id aggressive,
       passive_trader_id = trader_id passive,
       t_timestamp = ts,
       sequence_number = trade_count b\<rparr>,
      b\<lparr>next_trade_id := next_trade_id b + 1\<rparr>)"

text \<open>
  The state of a matching loop: the incoming order (\<open>*order\<close>), the trades so far and
  the book.  One pass through a loop body either goes round again, leaves the loop, or
  hits undefined behaviour.
\<close>

type_synonym mstate = "Order \<times> TradeEvent list \<times> OrderBook"

datatype step = Continue mstate | Break mstate | Fault fault

text \<open>
  The inner loop \<open>while (order->remaining_quantity > 0 && !queue.empty())\<close>, which the
  source has four times (limit and market, buy and sell) with the same body.  \<open>sd\<close> is
  the side of the ladder being consumed; \<open>queue\<close> is bound to its first level, whose
  key is \<open>p\<close>, and \<open>a\<close> is \<open>queue.front()\<close>, the address of \<open>resting\<close>.
\<close>

text \<open>The body from \<open>trade_qty\<close> on: one fill.\<close>

definition fill_step :: "Side \<Rightarrow> Timestamp \<Rightarrow> Price \<Rightarrow> addr \<Rightarrow> Order \<Rightarrow> mstate \<Rightarrow> mstate" where
  "fill_step sd ts p a resting s =
     (case s of (ord, trades, b) \<Rightarrow>
        let trade_qty = min (remaining_quantity ord) (remaining_quantity resting);
            (trade, b1) = create_trade b ord resting trade_qty p ts;
            ord' = ord\<lparr>remaining_quantity := remaining_quantity ord - trade_qty\<rparr>;
            resting' = resting\<lparr>remaining_quantity := remaining_quantity resting - trade_qty\<rparr>;
            b2 = b1\<lparr>heap := (heap b1)(a \<mapsto> resting'),
                    trade_count := trade_count b1 + 1,
                    total_volume := total_volume b1 + trade_qty\<rparr>;
            b3 = (if remaining_quantity resting' = 0
                  then erase_order (pop_front sd b2) (order_id resting')
                  else b2)
        in (ord', trades @ [trade], b3))"

text \<open>
  The self-trade branch.  With nothing left of the incoming order the loop is left by
  \<open>break\<close>.  Otherwise \<open>continue\<close> tests \<open>queue.empty()\<close> again: if the level was
  erased, \<open>queue\<close> dangles.  If the resting order is still at the front, the next pass
  is the same pass again: it reads a freed order when the index entry that was erased
  owned it, and never ends otherwise.
\<close>

definition self_trade_step :: "Side \<Rightarrow> Price \<Rightarrow> PriceLevelQueue \<Rightarrow> addr \<Rightarrow> Order \<Rightarrow> mstate \<Rightarrow> step" where
  "self_trade_step sd p queue a resting s =
     (case s of (ord, trades, b) \<Rightarrow>
        let (ord', b') = handle_self_trade b ord a resting in
        if remaining_quantity ord' = 0 then Break (ord', trades, b')
        else
          (case ladder sd b' of
             [] \<Rightarrow> Fault DanglingLevel
           | (p', queue') # _ \<Rightarrow>
               if p' \<noteq> p then Fault DanglingLevel
               else if length (queue_orders queue') < length (queue_orders queue)
               then Continue (ord', trades, b')
               else (case heap b' a of
                       None \<Rightarrow> Fault UseAfterFree
                     | Some _ \<Rightarrow> Fault NoProgress)))"

definition queue_step :: "Side \<Rightarrow> Timestamp \<Rightarrow> mstate \<Rightarrow> step" where
  "queue_step sd ts s =
     (case s of (ord, trades, b) \<Rightarrow>
      (case ladder sd b of
         [] \<Rightarrow> Fault DanglingLevel
       | (p, queue) # _ \<Rightarrow>
           if remaining_quantity ord = 0 then Break s
           else
             (case queue_orders queue of
                [] \<Rightarrow> Break s
              | a # _ \<Rightarrow>
                  (case heap b a of
                     None \<Rightarrow> Fault UseAfterFree
                   | Some resting \<Rightarrow>
                       if would_self_trade b ord resting
                       then self_trade_step sd p queue a resting s
                       else Continue (fill_step sd ts p a resting s)))))"

definition queue_measure :: "Side \<Rightarrow> mstate \<Rightarrow> nat" where
  "queue_measure sd s =
     (case s of (ord, trades, b) \<Rightarrow>
        2 * (case ladder sd b of [] \<Rightarrow> 0 | (p, q) # _ \<Rightarrow> length (queue_orders q))
        + (if remaining_quantity ord = 0 then 0 else 1))"

subsection \<open>Ladders and the other members of the book\<close>

lemma ladder_update [simp]:
  "ladder sd (b\<lparr>heap := h\<rparr>) = ladder sd b"
  "ladder sd (b\<lparr>orders := m\<rparr>) = ladder sd b"
  "ladder sd (b\<lparr>next_addr := n\<rparr>) = ladder sd b"
  "ladder sd (b\<lparr>next_trade_id := i\<rparr>) = ladder sd b"
  "ladder sd (b\<lparr>trade_count := c\<rparr>) = ladder sd b"
  "ladder sd (b\<lparr>total_volume := v\<rparr>) = ladder sd b"
  by (simp_all add: ladder_def split: Side.splits)

lemma ladder_set_ladder [simp]:
  "ladder sd (set_ladder sd' l b) = (if sd = sd' then l else ladder sd b)"
  by (cases sd; cases sd') (simp_all add: ladder_def set_ladder_def)

lemma set_ladder_members [simp]:
  "heap (set_ladder sd l b) = heap b"
  "orders (set_ladder sd l b) = orders b"
  "next_addr (set_ladder sd l b) = next_addr b"
  "next_trade_id (set_ladder sd l b) = next_trade_id b"
  "trade_count (set_ladder sd l b) = trade_count b"
  "total_volume (set_ladder sd l b) = total_volume b"
  "stp_policy (set_ladder sd l b) = stp_policy b"
  "book_symbol (set_ladder sd l b) = book_symbol b"
  by (simp_all add: set_ladder_def split: Side.splits)

lemma ladder_erase_order [simp]: "ladder sd (erase_order b oid) = ladder sd b"
  by (simp add: erase_order_def split: option.splits)

lemma erase_order_members [simp]:
  "next_addr (erase_order b oid) = next_addr b"
  "next_trade_id (erase_order b oid) = next_trade_id b"
  "trade_count (erase_order b oid) = trade_count b"
  "total_volume (erase_order b oid) = total_volume b"
  "stp_policy (erase_order b oid) = stp_policy b"
  "book_symbol (erase_order b oid) = book_symbol b"
  by (simp_all add: erase_order_def split: option.splits)

lemma ladder_pop_front:
  "ladder sd' (pop_front sd b) =
     (if sd' = sd then
        (case ladder sd b of [] \<Rightarrow> []
         | (p, q) # l \<Rightarrow> (p, q\<lparr>queue_orders := tl (queue_orders q)\<rparr>) # l)
      else ladder sd' b)"
  by (simp add: pop_front_def split: list.splits)

lemma pop_front_members [simp]:
  "heap (pop_front sd b) = heap b"
  "orders (pop_front sd b) = orders b"
  "next_addr (pop_front sd b) = next_addr b"
  "next_trade_id (pop_front sd b) = next_trade_id b"
  "trade_count (pop_front sd b) = trade_count b"
  "total_volume (pop_front sd b) = total_volume b"
  "stp_policy (pop_front sd b) = stp_policy b"
  "book_symbol (pop_front sd b) = book_symbol b"
  by (simp_all add: pop_front_def split: list.splits)

lemma fill_leaves_nothing:
  fixes x r :: Quantity
  assumes "r - min x r \<noteq> 0"
  shows "x - min x r = 0"
proof (cases "x \<le> r")
  case True
  then show ?thesis by (simp add: min_def)
next
  case False
  then have "min x r = r" by (simp add: min_def)
  with assms show ?thesis by simp
qed

text \<open>How \<open>queue_step\<close> goes round again: by a fill, or past a cancelled resting order.\<close>

lemma queue_step_Continue_cases:
  assumes "queue_step sd ts (ord, trades, b) = Continue s'"
  obtains (fill) p queue l a rest resting where
      "ladder sd b = (p, queue) # l" "queue_orders queue = a # rest"
      "remaining_quantity ord \<noteq> 0" "heap b a = Some resting"
      "\<not> would_self_trade b ord resting"
      "s' = fill_step sd ts p a resting (ord, trades, b)"
  | (stp) p queue l a rest resting where
      "ladder sd b = (p, queue) # l" "queue_orders queue = a # rest"
      "remaining_quantity ord \<noteq> 0" "heap b a = Some resting"
      "would_self_trade b ord resting"
      "self_trade_step sd p queue a resting (ord, trades, b) = Continue s'"
  using assms unfolding queue_step_def
  by (auto split: list.splits if_splits option.splits)

lemma queue_step_Break_cases:
  assumes "queue_step sd ts (ord, trades, b) = Break s'"
  obtains (finished) p queue l where
      "ladder sd b = (p, queue) # l"
      "remaining_quantity ord = 0 \<or> queue_orders queue = []" "s' = (ord, trades, b)"
  | (stp) p queue l a rest resting where
      "ladder sd b = (p, queue) # l" "queue_orders queue = a # rest"
      "remaining_quantity ord \<noteq> 0" "heap b a = Some resting"
      "would_self_trade b ord resting"
      "self_trade_step sd p queue a resting (ord, trades, b) = Break s'"
  using assms unfolding queue_step_def
  by (auto split: list.splits if_splits option.splits)

lemma self_trade_step_Continue:
  assumes "self_trade_step sd p queue a resting (ord, trades, b) = Continue s'"
  obtains ord' b' queue' l' where
      "handle_self_trade b ord a resting = (ord', b')" "s' = (ord', trades, b')"
      "remaining_quantity ord' \<noteq> 0" "ladder sd b' = (p, queue') # l'"
      "length (queue_orders queue') < length (queue_orders queue)"
  using assms unfolding self_trade_step_def
  by (auto split: prod.splits list.splits if_splits option.splits)

lemma self_trade_step_Break:
  assumes "self_trade_step sd p queue a resting (ord, trades, b) = Break s'"
  obtains ord' b' where
      "handle_self_trade b ord a resting = (ord', b')" "s' = (ord', trades, b')"
      "remaining_quantity ord' = 0"
  using assms unfolding self_trade_step_def
  by (auto split: prod.splits list.splits if_splits option.splits)

lemma handle_self_trade_remaining:
  assumes "handle_self_trade b ord a resting = (ord', b')"
  shows "remaining_quantity ord' = remaining_quantity ord \<or> remaining_quantity ord' = 0"
  using assms unfolding handle_self_trade_def by (auto split: if_splits)

lemma queue_measure_fill_step:
  assumes "ladder sd b = (p, queue) # l" "queue_orders queue = a # rest"
    "remaining_quantity ord \<noteq> 0"
  shows "queue_measure sd (fill_step sd ts p a resting (ord, trades, b))
           < queue_measure sd (ord, trades, b)"
proof -
  define tq where "tq = min (remaining_quantity ord) (remaining_quantity resting)"
  show ?thesis
  proof (cases "remaining_quantity resting - tq = 0")
    case True
    with assms show ?thesis
      unfolding fill_step_def queue_measure_def tq_def
      by (simp add: Let_def create_trade_def ladder_pop_front)
  next
    case nz: False
    then have "remaining_quantity ord - tq = 0"
      unfolding tq_def by (rule fill_leaves_nothing)
    with nz assms show ?thesis
      unfolding fill_step_def queue_measure_def tq_def
      by (simp add: Let_def create_trade_def)
  qed
qed

lemma queue_step_decreases:
  assumes "queue_step sd ts s = Continue s'"
  shows "queue_measure sd s' < queue_measure sd s"
proof -
  obtain ord trades b where s: "s = (ord, trades, b)"
    by (cases s) auto
  from assms [unfolded s] show ?thesis
  proof (cases rule: queue_step_Continue_cases)
    case (fill p queue l a rest resting)
    then show ?thesis
      unfolding s by (simp add: queue_measure_fill_step)
  next
    case (stp p queue l a rest resting)
    from stp(6) obtain ord' b' queue' l' where h:
      "handle_self_trade b ord a resting = (ord', b')" "s' = (ord', trades, b')"
      "remaining_quantity ord' \<noteq> 0" "ladder sd b' = (p, queue') # l'"
      "length (queue_orders queue') < length (queue_orders queue)"
      by (rule self_trade_step_Continue)
    with stp show ?thesis
      unfolding s queue_measure_def by simp
  qed
qed

function match_queue :: "Side \<Rightarrow> Timestamp \<Rightarrow> mstate \<Rightarrow> fault + mstate" where
  "match_queue sd ts s =
     (case queue_step sd ts s of
        Continue s' \<Rightarrow> match_queue sd ts s'
      | Break s' \<Rightarrow> Inr s'
      | Fault e \<Rightarrow> Inl e)"
  by pat_completeness auto
termination
  by (relation "measure (\<lambda>(sd, ts, s). queue_measure sd s)")
     (auto simp: queue_step_decreases)


text \<open>A property of the inner loop follows from what one pass does.\<close>

lemma match_queue_rule:
  assumes "match_queue sd ts s = Inr s'"
    and "I s"
    and "\<And>s s1. I s \<Longrightarrow> queue_step sd ts s = Continue s1 \<Longrightarrow> I s1"
    and "\<And>s s1. I s \<Longrightarrow> queue_step sd ts s = Break s1 \<Longrightarrow> Q s1"
  shows "Q s'"
  using assms
proof (induction sd ts s rule: match_queue.induct)
  case (1 sd ts s)
  show ?case
  proof (cases "queue_step sd ts s")
    case (Continue s1)
    from "1.prems"(1) have "match_queue sd ts s1 = Inr s'"
      by (subst (asm) match_queue.simps) (simp add: Continue)
    moreover have "I s1"
      using "1.prems"(2) Continue by (rule "1.prems"(3))
    ultimately show ?thesis
      using "1.prems"(3,4) by (rule "1.IH" [OF Continue])
  next
    case (Break s1)
    from "1.prems"(1) have "s1 = s'"
      by (subst (asm) match_queue.simps) (simp add: Break)
    with "1.prems"(2) Break "1.prems"(4) show ?thesis by auto
  next
    case (Fault e)
    from "1.prems"(1) show ?thesis
      by (subst (asm) match_queue.simps) (simp add: Fault)
  qed
qed

declare match_queue.simps [simp del]

lemma length_level_erase: "length (level_erase p l) \<le> length l"
  by (induction l) auto

lemma length_level_update [simp]: "length (level_update p q l) = length l"
  by (induction l) auto

lemma length_ladder_remove_from_book:
  "length (ladder sd (remove_from_book b a ord)) \<le> length (ladder sd b)"
  by (auto simp: remove_from_book_def Let_def level_find_def length_level_erase
           split: option.splits)

lemma length_ladder_handle_self_trade:
  "handle_self_trade b ord a resting = (ord', b') \<Longrightarrow>
   length (ladder sd b') \<le> length (ladder sd b)"
  by (auto simp: handle_self_trade_def length_ladder_remove_from_book split: if_splits)

lemma length_ladder_fill_step:
  "length (ladder sd' (snd (snd (fill_step sd ts p a resting s))))
     = length (ladder sd' (snd (snd s)))"
  by (cases s)
     (auto simp: fill_step_def Let_def create_trade_def ladder_pop_front
           split: if_splits list.splits)

lemma length_ladder_queue_step:
  assumes "queue_step sd ts (ord, trades, b) = Continue (ord', trades', b')
           \<or> queue_step sd ts (ord, trades, b) = Break (ord', trades', b')"
  shows "length (ladder sd b') \<le> length (ladder sd b)"
  using assms
proof
  assume "queue_step sd ts (ord, trades, b) = Continue (ord', trades', b')"
  then show ?thesis
  proof (cases rule: queue_step_Continue_cases)
    case (fill p queue l a rest resting)
    then show ?thesis
      using length_ladder_fill_step [of sd sd ts p a resting "(ord, trades, b)"]
      by (simp add: fill(6) [symmetric])
  next
    case (stp p queue l a rest resting)
    from stp(6) show ?thesis
      by (rule self_trade_step_Continue)
         (use length_ladder_handle_self_trade [of b ord a resting ord' b' sd] in auto)
  qed
next
  assume "queue_step sd ts (ord, trades, b) = Break (ord', trades', b')"
  then show ?thesis
  proof (cases rule: queue_step_Break_cases)
    case (finished p queue l)
    then show ?thesis by simp
  next
    case (stp p queue l a rest resting)
    from stp(6) show ?thesis
      by (rule self_trade_step_Break)
         (use length_ladder_handle_self_trade [of b ord a resting ord' b' sd] in auto)
  qed
qed

lemma length_ladder_match_queue:
  assumes "match_queue sd ts (ord, trades, b) = Inr (ord', trades', b')"
  shows "length (ladder sd b') \<le> length (ladder sd b)"
proof -
  have "(\<lambda>s. length (ladder sd (snd (snd s))) \<le> length (ladder sd b)) (ord', trades', b')"
    using assms
  proof (rule match_queue_rule [where I = "\<lambda>s. length (ladder sd (snd (snd s))) \<le> length (ladder sd b)"])
    show "length (ladder sd (snd (snd (ord, trades, b)))) \<le> length (ladder sd b)" by simp
  next
    fix s s1 :: mstate
    assume "length (ladder sd (snd (snd s))) \<le> length (ladder sd b)"
      and "queue_step sd ts s = Continue s1"
    then show "length (ladder sd (snd (snd s1))) \<le> length (ladder sd b)"
      using length_ladder_queue_step [of sd ts "fst s" "fst (snd s)" "snd (snd s)" "fst s1" "fst (snd s1)" "snd (snd s1)"]
      by simp
  next
    fix s s1 :: mstate
    assume "length (ladder sd (snd (snd s))) \<le> length (ladder sd b)"
      and "queue_step sd ts s = Break s1"
    then show "length (ladder sd (snd (snd s1))) \<le> length (ladder sd b)"
      using length_ladder_queue_step [of sd ts "fst s" "fst (snd s)" "snd (snd s)" "fst s1" "fst (snd s1)" "snd (snd s1)"]
      by simp
  qed
  then show ?thesis by simp
qed

text \<open>The inner loop is left with nothing to fill or nothing to fill from.\<close>

lemma match_queue_exit:
  assumes "match_queue sd ts s = Inr (ord', trades', b')"
    and "ladder sd b' = (p', queue') # l'"
  shows "remaining_quantity ord' = 0 \<or> queue_orders queue' = []"
proof -
  have "(\<lambda>s1. \<forall>p q l. ladder sd (snd (snd s1)) = (p, q) # l \<longrightarrow>
                remaining_quantity (fst s1) = 0 \<or> queue_orders q = []) (ord', trades', b')"
    using assms(1)
  proof (rule match_queue_rule [where I = "\<lambda>s. True"])
    fix s s1 :: mstate
    assume "queue_step sd ts s = Break s1"
    then have "queue_step sd ts (fst s, fst (snd s), snd (snd s)) = Break s1" by simp
    then show "\<forall>p q l. ladder sd (snd (snd s1)) = (p, q) # l \<longrightarrow>
                remaining_quantity (fst s1) = 0 \<or> queue_orders q = []"
    proof (cases rule: queue_step_Break_cases)
      case (finished p queue l)
      then show ?thesis by auto
    next
      case (stp p queue l a rest resting)
      from stp(6) show ?thesis
        by (rule self_trade_step_Break) auto
    qed
  qed simp_all
  with assms(2) show ?thesis by simp
qed

text \<open>
  The outer loop \<open>while (order->remaining_quantity > 0 && !asks_.empty())\<close> (or
  \<open>bids_\<close>).  \<open>match_limit_order\<close> leaves it when the best price does not cross
  (\<open>order->price < price\<close> for a buy, \<open>order->price > price\<close> for a sell);
  \<open>match_market_order\<close> has no such test.  After the inner loop the body reads
  \<open>queue.empty()\<close>: if the first level is no longer the one \<open>queue\<close> was bound
  to, that level was erased and \<open>queue\<close> dangles.
\<close>

definition no_cross :: "Side \<Rightarrow> Order \<Rightarrow> Price \<Rightarrow> bool" where
  "no_cross sd ord p =
     (case sd of SELL \<Rightarrow> sint (price ord) < sint p | BUY \<Rightarrow> sint (price ord) > sint p)"

definition level_step :: "bool \<Rightarrow> Side \<Rightarrow> Timestamp \<Rightarrow> mstate \<Rightarrow> step" where
  "level_step lim sd ts s =
     (case s of (ord, trades, b) \<Rightarrow>
      if remaining_quantity ord = 0 then Break s
      else
        (case ladder sd b of
           [] \<Rightarrow> Break s
         | (p, queue) # _ \<Rightarrow>
             if lim \<and> no_cross sd ord p then Break s
             else
               (case match_queue sd ts s of
                  Inl e \<Rightarrow> Fault e
                | Inr (ord', trades', b') \<Rightarrow>
                    (case ladder sd b' of
                       [] \<Rightarrow> Fault DanglingLevel
                     | (p', queue') # l' \<Rightarrow>
                         if p' \<noteq> p then Fault DanglingLevel
                         else if queue_orders queue' = []
                         then Continue (ord', trades', set_ladder sd l' b')
                         else Continue (ord', trades', b')))))"

definition level_measure :: "Side \<Rightarrow> mstate \<Rightarrow> nat" where
  "level_measure sd s =
     (case s of (ord, trades, b) \<Rightarrow>
        2 * length (ladder sd b) + (if remaining_quantity ord = 0 then 0 else 1))"

lemma level_step_Continue_cases:
  assumes "level_step lim sd ts (ord, trades, b) = Continue s'"
  obtains p queue l ord' trades' b' queue' l' where
    "remaining_quantity ord \<noteq> 0" "ladder sd b = (p, queue) # l"
    "\<not> (lim \<and> no_cross sd ord p)"
    "match_queue sd ts (ord, trades, b) = Inr (ord', trades', b')"
    "ladder sd b' = (p, queue') # l'"
    "s' = (ord', trades', if queue_orders queue' = [] then set_ladder sd l' b' else b')"
  using assms unfolding level_step_def
  by (auto split: list.splits if_splits sum.splits)

lemma level_step_Break:
  assumes "level_step lim sd ts s = Break s'"
  shows "s' = s"
  using assms unfolding level_step_def
  by (auto split: list.splits if_splits sum.splits prod.splits)

lemma level_step_decreases:
  assumes "level_step lim sd ts s = Continue s'"
  shows "level_measure sd s' < level_measure sd s"
proof -
  obtain ord trades b where s: "s = (ord, trades, b)"
    by (cases s) auto
  from assms [unfolded s] show ?thesis
  proof (cases rule: level_step_Continue_cases)
    case (1 p queue l ord' trades' b' queue' l')
    have len: "length (ladder sd b') \<le> length (ladder sd b)"
      using 1(4) by (rule length_ladder_match_queue)
    have ex: "remaining_quantity ord' = 0 \<or> queue_orders queue' = []"
      using 1(4,5) by (rule match_queue_exit)
    show ?thesis
      using 1 len ex unfolding s level_measure_def by auto
  qed
qed

function match_levels :: "bool \<Rightarrow> Side \<Rightarrow> Timestamp \<Rightarrow> mstate \<Rightarrow> fault + mstate" where
  "match_levels lim sd ts s =
     (case level_step lim sd ts s of
        Continue s' \<Rightarrow> match_levels lim sd ts s'
      | Break s' \<Rightarrow> Inr s'
      | Fault e \<Rightarrow> Inl e)"
  by pat_completeness auto
termination
  by (relation "measure (\<lambda>(lim, sd, ts, s). level_measure sd s)")
     (auto simp: level_step_decreases)

declare match_levels.simps [simp del]

definition opposite :: "Side \<Rightarrow> Side" where
  "opposite sd = (case sd of BUY \<Rightarrow> SELL | SELL \<Rightarrow> BUY)"

text \<open>
  \<open>match_limit_order\<close> and \<open>match_market_order\<close>: a buy consumes the asks, a sell the
  bids.  The result is the incoming order as the call leaves it, the trades, the book.
\<close>

definition match_limit_order :: "OrderBook \<Rightarrow> Order \<Rightarrow> Timestamp \<Rightarrow> fault + mstate" where
  "match_limit_order b ord ts =
     (if is_buy ord then match_levels True SELL ts (ord, [], b)
      else match_levels True BUY ts (ord, [], b))"

definition match_market_order :: "OrderBook \<Rightarrow> Order \<Rightarrow> Timestamp \<Rightarrow> fault + mstate" where
  "match_market_order b ord ts =
     (if is_buy ord then match_levels False SELL ts (ord, [], b)
      else match_levels False BUY ts (ord, [], b))"

definition match_order :: "OrderBook \<Rightarrow> Order \<Rightarrow> Timestamp \<Rightarrow> fault + mstate" where
  "match_order b ord ts =
     (if is_limit ord then match_limit_order b ord ts
      else if is_market ord then match_market_order b ord ts
      else Inr (ord, [], b))"

subsection \<open>The public operations\<close>

text \<open>
  \<open>OrderBook::add_order\<close>.  \<open>now\<close> is the reading of the steady clock.  The copy of
  the order that the call works on lives at a fresh address; the model gives it the
  address when it comes to rest.  \<open>add_order_run\<close> is the body of the function and
  returns, with the trades and the book, the copy as the call leaves it;
  \<open>add_order\<close> is what the caller sees.
\<close>

definition add_order_run :: "OrderBook \<Rightarrow> Order \<Rightarrow> Timestamp \<Rightarrow> fault + mstate" where
  "add_order_run b ord now =
     (case match_order b ord now of
        Inl e \<Rightarrow> Inl e
      | Inr (ord', trades, b') \<Rightarrow>
          if remaining_quantity ord' > 0 then
            if is_ioc ord' then Inr (ord', trades, b')
            else if is_fok ord' then Inr (ord', [], b')
            else
              let (a, b'') = store_order b' ord'
              in Inr (ord', trades, add_to_book b'' a ord')
          else Inr (ord', trades, b'))"

definition add_order :: "OrderBook \<Rightarrow> Order \<Rightarrow> Timestamp \<Rightarrow> fault + TradeEvent list \<times> OrderBook" where
  "add_order b ord now =
     (case add_order_run b ord now of
        Inl e \<Rightarrow> Inl e
      | Inr (ord', trades, b') \<Rightarrow> Inr (trades, b'))"

definition cancel_order :: "OrderBook \<Rightarrow> OrderId \<Rightarrow> fault + bool \<times> OrderBook" where
  "cancel_order b oid =
     (case orders b oid of
        None \<Rightarrow> Inr (False, b)
      | Some a \<Rightarrow>
          (case heap b a of
             None \<Rightarrow> Inl UseAfterFree
           | Some ord \<Rightarrow> Inr (True, erase_order (remove_from_book b a ord) oid)))"

definition replace_order ::
  "OrderBook \<Rightarrow> OrderId \<Rightarrow> Price \<Rightarrow> Quantity \<Rightarrow> Timestamp \<Rightarrow> fault + TradeEvent list \<times> OrderBook" where
  "replace_order b oid new_price new_quantity now =
     (case orders b oid of
        None \<Rightarrow> Inr ([], b)
      | Some a \<Rightarrow>
          (case heap b a of
             None \<Rightarrow> Inl UseAfterFree
           | Some old_order \<Rightarrow>
               let b1 = remove_from_book b a old_order;
                   new_order = old_order\<lparr>price := new_price, quantity := new_quantity,
                                          remaining_quantity := new_quantity\<rparr>;
                   b2 = erase_order b1 oid
               in add_order b2 new_order now))"

definition get_best_bid :: "OrderBook \<Rightarrow> Price option" where
  "get_best_bid b = (case bids b of [] \<Rightarrow> None | (p, q) # _ \<Rightarrow> Some p)"

definition get_best_ask :: "OrderBook \<Rightarrow> Price option" where
  "get_best_ask b = (case asks b of [] \<Rightarrow> None | (p, q) # _ \<Rightarrow> Some p)"

subsection \<open>Request streams\<close>

text \<open>
  The three operations as requests, as \<open>EngineValidator\<close> drives them, and a stream
  of requests applied in order.  Every request comes with the clock reading of its call.
\<close>

datatype Request =
  AddOrder Order
| CancelOrder OrderId
| ReplaceOrder OrderId Price Quantity

definition apply_request ::
  "OrderBook \<Rightarrow> Request \<Rightarrow> Timestamp \<Rightarrow> fault + TradeEvent list \<times> OrderBook" where
  "apply_request b req now =
     (case req of
        AddOrder ord \<Rightarrow> add_order b ord now
      | CancelOrder oid \<Rightarrow>
          (case cancel_order b oid of Inl e \<Rightarrow> Inl e | Inr (ok, b') \<Rightarrow> Inr ([], b'))
      | ReplaceOrder oid p q \<Rightarrow> replace_order b oid p q now)"

fun replay :: "OrderBook \<Rightarrow> (Request \<times> Timestamp) list \<Rightarrow> fault + OrderBook" where
  "replay b [] = Inr b"
| "replay b ((req, now) # rs) =
     (case apply_request b req now of
        Inl e \<Rightarrow> Inl e
      | Inr (trades, b') \<Rightarrow> replay b' rs)"

text \<open>An order as a request for it arrives: nothing filled yet.\<close>

definition new_order ::
  "OrderId \<Rightarrow> TraderId \<Rightarrow> Side \<Rightarrow> OrderType \<Rightarrow> Price \<Rightarrow> Quantity \<Rightarrow> TimeInForce \<Rightarrow> Order" where
  "new_order oid tid sd ty p q tif =
     \<lparr>order_id = oid, trader_id = tid, symbol = ''TEST'', side = sd, order_type = ty,
      price = p, quantity = q, remaining_quantity = q, time_in_force = tif,
      timestamp = 0, post_only = False, hidden = False, display_quantity = 0\<rparr>"

subsection \<open>Example books\<close>

text \<open>
  The book that holds one resting sell order, id 1, at price 10000, of trader \<open>tid\<close>
  and quantity \<open>q\<close>, under the policy \<open>pol\<close>: what a fresh book is after that order
  was added (\<open>one_ask_book_reached\<close> below).
\<close>

definition one_ask_book :: "STPPolicy \<Rightarrow> TraderId \<Rightarrow> Quantity \<Rightarrow> OrderBook" where
  "one_ask_book pol tid q =
     \<lparr>book_symbol = ''TEST'', stp_policy = pol, bids = [],
      asks = [(10000, \<lparr>queue_orders = [0], total_quantity = q\<rparr>)],
      orders = [1 \<mapsto> 0],
      heap = [0 \<mapsto> new_order 1 tid SELL LIMIT 10000 q DAY],
      next_addr = 1, next_trade_id = 1, trade_count = 0, total_volume = 0\<rparr>"

text \<open>
  A book with three resting sells: orders 1 (60) and 2 (30), in this order, at 10000
  and order 3 (40) at 10001; what a fresh book is after the three were added
  (\<open>two_level_book_reached\<close> below).
\<close>

definition two_level_book :: "STPPolicy \<Rightarrow> OrderBook" where
  "two_level_book pol =
     \<lparr>book_symbol = ''TEST'', stp_policy = pol, bids = [],
      asks = [(10000, \<lparr>queue_orders = [0, 1], total_quantity = 90\<rparr>),
              (10001, \<lparr>queue_orders = [2], total_quantity = 40\<rparr>)],
      orders = [1 \<mapsto> 0, 2 \<mapsto> 1, 3 \<mapsto> 2],
      heap = [0 \<mapsto> new_order 1 100 SELL LIMIT 10000 60 DAY,
              1 \<mapsto> new_order 2 101 SELL LIMIT 10000 30 DAY,
              2 \<mapsto> new_order 3 100 SELL LIMIT 10001 40 DAY],
      next_addr = 3, next_trade_id = 1, trade_count = 0, total_volume = 0\<rparr>"

text \<open>
  A stream with a resting sell and a resting buy, a market order that fills, a
  self-trade, a replace and a cancel of an unknown id.
\<close>

definition sample_stream :: "(Request \<times> Timestamp) list" where
  "sample_stream =
     [(AddOrder (new_order 1 100 SELL LIMIT 10005 100 DAY), 1),
      (AddOrder (new_order 2 101 BUY LIMIT 10000 50 DAY), 2),
      (AddOrder (new_order 3 102 BUY MARKET 0 30 IOC), 3),
      (AddOrder (new_order 4 100 BUY LIMIT 10005 10 DAY), 4),
      (ReplaceOrder 2 10001 20, 5),
      (CancelOrder 9, 6)]"

text \<open>Unfolding everything evaluates a call on a concrete book.\<close>

lemmas book_eval =
  apply_request_def add_order_def add_order_run_def match_order_def match_limit_order_def
  match_market_order_def match_levels.simps level_step_def match_queue.simps queue_step_def
  fill_step_def self_trade_step_def handle_self_trade_def would_self_trade_def
  create_trade_def store_order_def add_to_book_def remove_from_book_def erase_order_def
  pop_front_def level_find_def plq_add_order_def
  plq_remove_order_def empty_level_def new_book_def new_order_def one_ask_book_def
  two_level_book_def sample_stream_def
  ladder_def set_ladder_def no_cross_def before_def is_buy_def is_limit_def is_market_def
  is_ioc_def is_fok_def cancel_order_def replace_order_def INVALID_TRADER_ID_def Let_def
  opposite_def

lemma one_ask_book_reached:
  "add_order (new_book ''TEST'' pol) (new_order 1 tid SELL LIMIT 10000 100 DAY) now
     = Inr ([], one_ask_book pol tid 100)"
  by (simp add: book_eval)

lemma two_level_book_reached:
  "replay (new_book ''TEST'' pol)
     [(AddOrder (new_order 1 100 SELL LIMIT 10000 60 DAY), 1),
      (AddOrder (new_order 3 100 SELL LIMIT 10001 40 DAY), 2),
      (AddOrder (new_order 2 101 SELL LIMIT 10000 30 DAY), 3)]
     = Inr ((two_level_book pol)
              \<lparr>orders := [1 \<mapsto> 0, 3 \<mapsto> 1, 2 \<mapsto> 2],
               heap := [0 \<mapsto> new_order 1 100 SELL LIMIT 10000 60 DAY,
                        1 \<mapsto> new_order 3 100 SELL LIMIT 10001 40 DAY,
                        2 \<mapsto> new_order 2 101 SELL LIMIT 10000 30 DAY],
               asks := [(10000, \<lparr>queue_orders = [0, 2], total_quantity = 90\<rparr>),
                        (10001, \<lparr>queue_orders = [1], total_quantity = 40\<rparr>)]\<rparr>)"
  by (simp add: book_eval)

section \<open>Reasoning about the matching loops\<close>

lemma match_levels_rule:
  assumes "match_levels lim sd ts s = Inr s'"
    and "I s"
    and "\<And>s s1. I s \<Longrightarrow> level_step lim sd ts s = Continue s1 \<Longrightarrow> I s1"
  shows "I s' \<and> level_step lim sd ts s' = Break s'"
  using assms
proof (induction lim sd ts s rule: match_levels.induct)
  case (1 lim sd ts s)
  show ?case
  proof (cases "level_step lim sd ts s")
    case (Continue s1)
    from "1.prems"(1) have "match_levels lim sd ts s1 = Inr s'"
      by (subst (asm) match_levels.simps) (simp add: Continue)
    moreover have "I s1"
      using "1.prems"(2) Continue by (rule "1.prems"(3))
    ultimately show ?thesis
      using "1.prems"(3) by (rule "1.IH" [OF Continue])
  next
    case (Break s1)
    from "1.prems"(1) have "s1 = s'"
      by (subst (asm) match_levels.simps) (simp add: Break)
    moreover from Break have "s1 = s" by (rule level_step_Break)
    ultimately show ?thesis
      using "1.prems"(2) Break by simp
  next
    case (Fault e)
    from "1.prems"(1) show ?thesis
      by (subst (asm) match_levels.simps) (simp add: Fault)
  qed
qed

text \<open>
  What is known when the outer loop is left: nothing remains of the order, or the
  ladder is empty, or (for a limit order) the best level does not cross.
\<close>

definition matching_done :: "bool \<Rightarrow> Side \<Rightarrow> mstate \<Rightarrow> bool" where
  "matching_done lim sd s =
     (case s of (ord, trades, b) \<Rightarrow>
        remaining_quantity ord = 0 \<or>
        (case ladder sd b of [] \<Rightarrow> True | (p, q) # l \<Rightarrow> lim \<and> no_cross sd ord p))"

lemma level_step_Break_done:
  assumes "level_step lim sd ts s = Break s'"
  shows "matching_done lim sd s"
  using assms unfolding level_step_def matching_done_def
  by (auto split: prod.splits list.splits if_splits sum.splits)

text \<open>
  The rule for both loops at once.  An invariant of the loop state holds at the end if
  it holds at the start and three things keep it: a fill against the order at the front
  of the best level, the handling of a self-trade with that order, and the removal of
  the best level once its queue is empty.
\<close>

lemma matching_rule:
  assumes run: "match_levels lim sd ts s = Inr s'"
    and init: "I s"
    and fill: "\<And>ord trades b p queue l a rest resting.
        I (ord, trades, b) \<Longrightarrow> ladder sd b = (p, queue) # l \<Longrightarrow>
        queue_orders queue = a # rest \<Longrightarrow> remaining_quantity ord \<noteq> 0 \<Longrightarrow>
        heap b a = Some resting \<Longrightarrow> \<not> would_self_trade b ord resting \<Longrightarrow>
        I (fill_step sd ts p a resting (ord, trades, b))"
    and stp: "\<And>ord trades b p queue l a rest resting ord' b'.
        I (ord, trades, b) \<Longrightarrow> ladder sd b = (p, queue) # l \<Longrightarrow>
        queue_orders queue = a # rest \<Longrightarrow> remaining_quantity ord \<noteq> 0 \<Longrightarrow>
        heap b a = Some resting \<Longrightarrow> would_self_trade b ord resting \<Longrightarrow>
        handle_self_trade b ord a resting = (ord', b') \<Longrightarrow>
        I (ord', trades, b')"
    and drop: "\<And>ord trades b p queue l.
        I (ord, trades, b) \<Longrightarrow> ladder sd b = (p, queue) # l \<Longrightarrow>
        queue_orders queue = [] \<Longrightarrow> I (ord, trades, set_ladder sd l b)"
  shows "I s' \<and> matching_done lim sd s'"
proof -
  have inner_step: "I s2" if "I s1" and "queue_step sd ts s1 = Continue s2 \<or> queue_step sd ts s1 = Break s2"
    for s1 s2
  proof -
    obtain ord trades b where s1: "s1 = (ord, trades, b)" by (cases s1) auto
    from that(2) show ?thesis
    proof
      assume "queue_step sd ts s1 = Continue s2"
      then have "queue_step sd ts (ord, trades, b) = Continue s2" by (simp add: s1)
      then show ?thesis
      proof (cases rule: queue_step_Continue_cases)
        case (fill p queue l a rest resting)
        with that(1) show ?thesis
          unfolding s1 by (simp add: assms(3))
      next
        case st: (stp p queue l a rest resting)
        from st(6) obtain ord' b' where
          "handle_self_trade b ord a resting = (ord', b')" "s2 = (ord', trades, b')"
          by (rule self_trade_step_Continue)
        with that(1) st show ?thesis
          unfolding s1 using assms(4) by blast
      qed
    next
      assume "queue_step sd ts s1 = Break s2"
      then have "queue_step sd ts (ord, trades, b) = Break s2" by (simp add: s1)
      then show ?thesis
      proof (cases rule: queue_step_Break_cases)
        case (finished p queue l)
        with that(1) show ?thesis by (simp add: s1)
      next
        case st: (stp p queue l a rest resting)
        from st(6) obtain ord' b' where
          "handle_self_trade b ord a resting = (ord', b')" "s2 = (ord', trades, b')"
          by (rule self_trade_step_Break)
        with that(1) st show ?thesis
          unfolding s1 using assms(4) by blast
      qed
    qed
  qed
  have inner: "I s2" if "I s1" and "match_queue sd ts s1 = Inr s2" for s1 s2
    using that(2,1) by (rule match_queue_rule) (use inner_step in blast)+
  have outer_step: "I s2" if "I s1" and "level_step lim sd ts s1 = Continue s2" for s1 s2
  proof -
    obtain ord trades b where s1: "s1 = (ord, trades, b)" by (cases s1) auto
    from that(2) have "level_step lim sd ts (ord, trades, b) = Continue s2" by (simp add: s1)
    then show ?thesis
    proof (cases rule: level_step_Continue_cases)
      case (1 p queue l ord' trades' b' queue' l')
      from that(1) 1(4) have I': "I (ord', trades', b')"
        unfolding s1 by (rule inner)
      show ?thesis
      proof (cases "queue_orders queue' = []")
        case True
        from I' 1(5) True have "I (ord', trades', set_ladder sd l' b')"
          by (rule assms(5))
        with True 1(6) show ?thesis by simp
      next
        case False
        with I' 1(6) show ?thesis by simp
      qed
    qed
  qed
  have "I s' \<and> level_step lim sd ts s' = Break s'"
    using run init by (rule match_levels_rule) (use outer_step in blast)
  then show ?thesis
    by (auto dest: level_step_Break_done)
qed

text \<open>The same for \<open>match_order\<close>, whichever loop it runs.\<close>

lemma match_order_cases:
  assumes "match_order b ord ts = Inr s'"
  obtains lim where "match_levels lim (opposite (side ord)) ts (ord, [], b) = Inr s'"
    "lim = is_limit ord"
  using assms unfolding match_order_def match_limit_order_def match_market_order_def
    is_buy_def is_limit_def is_market_def opposite_def
  by (cases "order_type ord"; cases "side ord") (auto split: if_splits)

subsection \<open>Matching changes nothing of the incoming order but its remaining quantity\<close>

definition same_order :: "Order \<Rightarrow> Order \<Rightarrow> bool" where
  "same_order ord ord' = (ord' = ord\<lparr>remaining_quantity := remaining_quantity ord'\<rparr>)"

lemma same_order_refl [simp]: "same_order ord ord"
  by (simp add: same_order_def)

lemma same_order_fields:
  assumes "same_order ord ord'"
  shows "order_id ord' = order_id ord" "trader_id ord' = trader_id ord"
    "symbol ord' = symbol ord" "side ord' = side ord" "order_type ord' = order_type ord"
    "price ord' = price ord" "quantity ord' = quantity ord"
    "time_in_force ord' = time_in_force ord" "timestamp ord' = timestamp ord"
  using assms unfolding same_order_def
  by (metis Order.select_convs Order.surjective Order.update_convs)+

lemma same_order_update:
  "same_order ord ord' \<Longrightarrow> same_order ord (ord'\<lparr>remaining_quantity := r\<rparr>)"
  unfolding same_order_def by (metis Order.update_convs(8) Order.surjective Order.select_convs(8))

lemma match_levels_same_order:
  assumes "match_levels lim sd ts (ord, [], b) = Inr (ord', trades, b')"
  shows "same_order ord ord'"
proof -
  define I :: "mstate \<Rightarrow> bool" where "I = (\<lambda>(o1, t1, b1). same_order ord o1)"
  have "I (ord', trades, b') \<and> matching_done lim sd (ord', trades, b')"
    using assms
  proof (rule matching_rule)
    show "I (ord, [], b)" by (simp add: I_def)
  next
    fix o1 t1 b1 p queue l a rest resting
    assume "I (o1, t1, b1)"
    then show "I (fill_step sd ts p a resting (o1, t1, b1))"
      by (simp add: I_def fill_step_def Let_def create_trade_def same_order_update)
  next
    fix o1 t1 b1 p queue l a rest resting o2 b2
    assume "I (o1, t1, b1)" and "handle_self_trade b1 o1 a resting = (o2, b2)"
    then show "I (o2, t1, b2)"
      by (auto simp: I_def handle_self_trade_def same_order_update split: if_splits)
  next
    fix o1 t1 b1 p queue l
    assume "I (o1, t1, b1)"
    then show "I (o1, t1, set_ladder sd l b1)" by (simp add: I_def)
  qed
  then show ?thesis by (simp add: I_def)
qed

lemma match_order_same_order:
  assumes "match_order b ord ts = Inr (ord', trades, b')"
  shows "same_order ord ord'"
  using assms by (rule match_order_cases) (rule match_levels_same_order)

lemma add_order_run_cases:
  assumes "add_order_run b ord now = Inr (ord', trades, b')"
  obtains (gone) t0 where
      "match_order b ord now = Inr (ord', t0, b')"
      "remaining_quantity ord' = 0 \<or> is_ioc ord \<or> is_fok ord"
      "trades = (if remaining_quantity ord' \<noteq> 0 \<and> \<not> is_ioc ord \<and> is_fok ord then [] else t0)"
  | (rests) b0 a b1 where
      "match_order b ord now = Inr (ord', trades, b0)"
      "remaining_quantity ord' \<noteq> 0" "\<not> is_ioc ord" "\<not> is_fok ord"
      "store_order b0 ord' = (a, b1)" "b' = add_to_book b1 a ord'"
proof -
  from assms obtain t0 b0 where m: "match_order b ord now = Inr (ord', t0, b0)"
    unfolding add_order_run_def
    by (auto simp: Let_def split: sum.splits prod.splits if_splits)
  then have so: "same_order ord ord'" by (rule match_order_same_order)
  then have tif: "is_ioc ord' = is_ioc ord" "is_fok ord' = is_fok ord"
    by (simp_all add: is_ioc_def is_fok_def same_order_fields)
  show ?thesis
  proof (cases "remaining_quantity ord' = 0 \<or> is_ioc ord \<or> is_fok ord")
    case True
    with assms m tif have "b' = b0"
      "trades = (if remaining_quantity ord' \<noteq> 0 \<and> \<not> is_ioc ord \<and> is_fok ord then [] else t0)"
      unfolding add_order_run_def
      by (auto simp: Let_def word_greater_zero_iff split: if_splits)
    with m True show ?thesis by (auto intro: gone)
  next
    case False
    obtain a b1 where st: "store_order b0 ord' = (a, b1)" by (cases "store_order b0 ord'")
    with False assms m tif have "trades = t0" "b' = add_to_book b1 a ord'"
      unfolding add_order_run_def
      by (auto simp: Let_def word_greater_zero_iff split: if_splits)
    with m False st show ?thesis by (auto intro: rests)
  qed
qed

subsection \<open>Storing and queueing an order\<close>

lemma add_to_book_members [simp]:
  "heap (add_to_book b a ord) = heap b"
  "orders (add_to_book b a ord) = orders b"
  "next_addr (add_to_book b a ord) = next_addr b"
  "next_trade_id (add_to_book b a ord) = next_trade_id b"
  "stp_policy (add_to_book b a ord) = stp_policy b"
  by (simp_all add: add_to_book_def Let_def)

lemma store_order_result:
  assumes "store_order b ord = (a, b1)"
  shows "a = next_addr b" "orders b1 (order_id ord) = Some a" "heap b1 a = Some ord"
    "ladder sd b1 = ladder sd b"
  using assms by (auto simp: store_order_def Let_def)


lemma ladder_store_order:
  "store_order b ord = (a, b1) \<Longrightarrow> ladder sd b1 = ladder sd b"
  by (auto simp: store_order_def Let_def)

lemma ladder_add_to_book:
  "ladder sd (add_to_book b a ord) =
     (if sd = side ord
      then level_put sd (price ord)
             (plq_add_order
                (case level_find (price ord) (ladder sd b) of None \<Rightarrow> empty_level | Some q \<Rightarrow> q)
                a ord)
             (ladder sd b)
      else ladder sd b)"
  by (simp add: add_to_book_def Let_def)

lemma level_find_level_put [simp]: "level_find p (level_put sd p q l) = Some q"
  by (induction l) (auto simp: level_find_def)


section \<open>The keys of the ladders\<close>

text \<open>
  A \<open>std::map\<close> holds its keys in strict order: \<open>sorted_ladder\<close> is what makes an
  association list a state of the map.  \<open>not_crossed\<close> says that every bid price is
  below every ask price.
\<close>

definition ladder_keys :: "Side \<Rightarrow> OrderBook \<Rightarrow> Price list" where
  "ladder_keys sd b = map fst (ladder sd b)"

definition sorted_keys :: "Side \<Rightarrow> ladder \<Rightarrow> bool" where
  "sorted_keys sd l = sorted_wrt (before sd) (map fst l)"

definition sorted_ladder :: "Side \<Rightarrow> OrderBook \<Rightarrow> bool" where
  "sorted_ladder sd b = sorted_keys sd (ladder sd b)"

definition not_crossed :: "OrderBook \<Rightarrow> bool" where
  "not_crossed b =
     (\<forall>pb \<in> set (ladder_keys BUY b). \<forall>pa \<in> set (ladder_keys SELL b). sint pb < sint pa)"

definition ladders_ok :: "OrderBook \<Rightarrow> bool" where
  "ladders_ok b = (sorted_ladder BUY b \<and> sorted_ladder SELL b \<and> not_crossed b)"

lemma before_trans: "before sd p p' \<Longrightarrow> before sd p' p'' \<Longrightarrow> before sd p p''"
  by (cases sd) (auto simp: before_def)

lemma before_irrefl [simp]: "\<not> before sd p p"
  by (cases sd) (auto simp: before_def)

lemma before_total: "p \<noteq> p' \<Longrightarrow> \<not> before sd p p' \<Longrightarrow> before sd p' p"
proof -
  assume "p \<noteq> p'"
  then have "sint p \<noteq> sint p'" by (simp add: word_eq_iff_signed [where 'a = int])
  moreover assume "\<not> before sd p p'"
  ultimately show ?thesis
    by (cases sd) (auto simp: before_def)
qed

lemma keys_level_put: "fst ` set (level_put sd p q l) = insert p (fst ` set l)"
proof (induction l)
  case Nil
  then show ?case by simp
next
  case (Cons x l)
  obtain p' q' where x: "x = (p', q')" by (cases x)
  show ?case
  proof (cases "p = p'")
    case True
    then show ?thesis by (simp add: x)
  next
    case ne: False
    show ?thesis
    proof (cases "before sd p p'")
      case True
      with ne show ?thesis by (simp add: x insert_commute)
    next
      case False
      with ne Cons.IH show ?thesis by (simp add: x insert_commute)
    qed
  qed
qed

lemma sorted_keys_level_put:
  "sorted_keys sd l \<Longrightarrow> sorted_keys sd (level_put sd p q l)"
proof (induction l)
  case Nil
  then show ?case by (simp add: sorted_keys_def)
next
  case (Cons x l)
  obtain p' q' where x: "x = (p', q')" by (cases x)
  from Cons.prems have tl: "sorted_keys sd l" and hd: "\<forall>k \<in> set (map fst l). before sd p' k"
    by (auto simp: sorted_keys_def x)
  show ?case
  proof (cases "p = p'")
    case True
    with Cons.prems show ?thesis by (simp add: sorted_keys_def x)
  next
    case ne: False
    show ?thesis
    proof (cases "before sd p p'")
      case True
      with ne Cons.prems hd show ?thesis
        by (auto simp: sorted_keys_def x intro: before_trans)
    next
      case False
      with ne have "before sd p' p" by (rule before_total)
      moreover from tl have "sorted_keys sd (level_put sd p q l)" by (rule Cons.IH)
      ultimately show ?thesis
        using ne False hd keys_level_put [of sd p q l]
        by (auto simp: sorted_keys_def x)
    qed
  qed
qed

lemma keys_level_update [simp]: "map fst (level_update p q l) = map fst l"
  by (induction l) auto

lemma sorted_keys_level_update [simp]:
  "sorted_keys sd (level_update p q l) = sorted_keys sd l"
  by (simp add: sorted_keys_def)

lemma set_level_erase: "set (level_erase p l) \<subseteq> set l"
  by (induction l) (auto split: if_splits)

lemma keys_level_erase_subset: "fst ` set (level_erase p l) \<subseteq> fst ` set l"
  using set_level_erase [of p l] by auto

lemma keys_level_update_set [simp]: "fst ` set (level_update p q l) = fst ` set l"
  using keys_level_update [of p q l] by (metis list.set_map)

lemma sorted_keys_level_erase: "sorted_keys sd l \<Longrightarrow> sorted_keys sd (level_erase p l)"
proof (induction l)
  case Nil
  then show ?case by simp
next
  case (Cons x l)
  obtain p' q' where x: "x = (p', q')" by (cases x)
  from Cons.prems have tl: "sorted_keys sd l" and hd: "\<forall>k \<in> fst ` set l. before sd p' k"
    by (auto simp: sorted_keys_def x)
  from tl have "sorted_keys sd (level_erase p l)" by (rule Cons.IH)
  moreover from hd have "\<forall>k \<in> fst ` set (level_erase p l). before sd p' k"
    using keys_level_erase_subset [of p l] by blast
  ultimately show ?case
    using tl by (simp add: sorted_keys_def x)
qed

lemma sorted_keys_tail: "sorted_keys sd (x # l) \<Longrightarrow> sorted_keys sd l"
  by (simp add: sorted_keys_def)

lemma sorted_keys_head:
  "sorted_keys sd ((p, q) # l) \<Longrightarrow> k \<in> set (map fst l) \<Longrightarrow> before sd p k"
  by (auto simp: sorted_keys_def)

text \<open>How the operations on the book change the keys.\<close>

lemma ladder_remove_from_book:
  "ladder sd (remove_from_book b a ord) = ladder sd b
   \<or> (sd = side ord \<and>
       (ladder sd (remove_from_book b a ord) = level_erase (price ord) (ladder sd b)
        \<or> (\<exists>q. ladder sd (remove_from_book b a ord) = level_update (price ord) q (ladder sd b))))"
  by (auto simp: remove_from_book_def Let_def split: option.splits)

lemma keys_remove_from_book:
  "set (ladder_keys sd (remove_from_book b a ord)) \<subseteq> set (ladder_keys sd b)"
proof -
  have "fst ` set (ladder sd (remove_from_book b a ord)) \<subseteq> fst ` set (ladder sd b)"
    using ladder_remove_from_book [of sd b a ord]
  proof (elim disjE conjE exE)
    assume "ladder sd (remove_from_book b a ord) = level_erase (price ord) (ladder sd b)"
    then show ?thesis by (simp add: keys_level_erase_subset)
  qed simp_all
  then show ?thesis by (simp add: ladder_keys_def)
qed

lemma sorted_ladder_remove_from_book:
  "sorted_ladder sd b \<Longrightarrow> sorted_ladder sd (remove_from_book b a ord)"
  using ladder_remove_from_book [of sd b a ord]
  by (auto simp: sorted_ladder_def sorted_keys_level_erase)

lemma ladders_ok_remove_from_book:
  "ladders_ok b \<Longrightarrow> ladders_ok (remove_from_book b a ord)"
  using keys_remove_from_book [of BUY b a ord] keys_remove_from_book [of SELL b a ord]
  by (auto simp: ladders_ok_def not_crossed_def sorted_ladder_remove_from_book)

lemma ladders_ok_same_ladders:
  "ladder BUY b' = ladder BUY b \<Longrightarrow> ladder SELL b' = ladder SELL b \<Longrightarrow>
   ladders_ok b' = ladders_ok b"
  by (simp add: ladders_ok_def not_crossed_def sorted_ladder_def ladder_keys_def)

lemma ladders_ok_erase_order [simp]: "ladders_ok (erase_order b oid) = ladders_ok b"
  by (rule ladders_ok_same_ladders) simp_all

lemma ladder_fill_step_keys:
  "fill_step sd ts p a resting (ord, trades, b) = (ord', trades', b') \<Longrightarrow>
   ladder_keys sd' b' = ladder_keys sd' b"
  by (auto simp: fill_step_def Let_def create_trade_def ladder_pop_front ladder_keys_def
           split: if_splits list.splits)

lemma ladders_ok_fill_step:
  assumes "fill_step sd ts p a resting (ord, trades, b) = (ord', trades', b')"
  shows "ladders_ok b' = ladders_ok b"
  using ladder_fill_step_keys [OF assms, of BUY] ladder_fill_step_keys [OF assms, of SELL]
  by (simp add: ladders_ok_def not_crossed_def sorted_ladder_def sorted_keys_def ladder_keys_def)

lemma ladders_ok_handle_self_trade:
  "handle_self_trade b ord a resting = (ord', b') \<Longrightarrow> ladders_ok b \<Longrightarrow> ladders_ok b'"
  by (auto simp: handle_self_trade_def ladders_ok_remove_from_book split: if_splits)

lemma ladders_ok_drop_level:
  assumes "ladders_ok b" and "ladder sd b = (p, q) # l"
  shows "ladders_ok (set_ladder sd l b)"
proof -
  have "ladder (opposite sd) (set_ladder sd l b) = ladder (opposite sd) b"
    by (cases sd) (simp_all add: opposite_def)
  with assms show ?thesis
    by (cases sd)
       (auto simp: ladders_ok_def not_crossed_def sorted_ladder_def sorted_keys_def
                   ladder_keys_def opposite_def)
qed

text \<open>Matching keeps the ladders in order and the book uncrossed.\<close>

lemma match_levels_ladders_ok:
  assumes "match_levels lim sd ts (ord, [], b) = Inr (ord', trades, b')"
    and "ladders_ok b"
  shows "ladders_ok b' \<and> matching_done lim sd (ord', trades, b')"
proof -
  define I :: "mstate \<Rightarrow> bool" where "I = (\<lambda>(o1, t1, b1). ladders_ok b1)"
  have "I (ord', trades, b') \<and> matching_done lim sd (ord', trades, b')"
    using assms(1)
  proof (rule matching_rule)
    show "I (ord, [], b)" using assms(2) by (simp add: I_def)
  next
    fix o1 t1 b1 p queue l a rest resting
    assume "I (o1, t1, b1)"
    then show "I (fill_step sd ts p a resting (o1, t1, b1))"
      using ladders_ok_fill_step [of sd ts p a resting o1 t1 b1]
      by (cases "fill_step sd ts p a resting (o1, t1, b1)") (simp add: I_def)
  next
    fix o1 t1 b1 p queue l a rest resting o2 b2
    assume "I (o1, t1, b1)" and "handle_self_trade b1 o1 a resting = (o2, b2)"
    then show "I (o2, t1, b2)"
      by (auto simp: I_def dest: ladders_ok_handle_self_trade)
  next
    fix o1 t1 b1 p queue l
    assume "I (o1, t1, b1)" and "ladder sd b1 = (p, queue) # l"
    then show "I (o1, t1, set_ladder sd l b1)"
      by (auto simp: I_def intro: ladders_ok_drop_level)
  qed
  then show ?thesis by (simp add: I_def)
qed

section \<open>The order in which a ladder is consumed\<close>


definition level_seq :: "(addr \<rightharpoonup> Order) \<Rightarrow> Price \<Rightarrow> addr list \<Rightarrow> (Price \<times> OrderId) list" where
  "level_seq h p as = List.map_filter (\<lambda>a. map_option (\<lambda>r. (p, order_id r)) (h a)) as"

definition ladder_seq :: "(addr \<rightharpoonup> Order) \<Rightarrow> ladder \<Rightarrow> (Price \<times> OrderId) list" where
  "ladder_seq h l = concat (map (\<lambda>(p, q). level_seq h p (queue_orders q)) l)"

definition book_seq :: "Side \<Rightarrow> OrderBook \<Rightarrow> (Price \<times> OrderId) list" where
  "book_seq sd b = ladder_seq (heap b) (ladder sd b)"

text \<open>A heap after orders were freed and orders changed in all but their \<open>order_id\<close>.\<close>

definition heap_shrinks :: "(addr \<rightharpoonup> Order) \<Rightarrow> (addr \<rightharpoonup> Order) \<Rightarrow> bool" where
  "heap_shrinks h h' =
     (\<forall>a. case h' a of None \<Rightarrow> True
          | Some r' \<Rightarrow> (case h a of None \<Rightarrow> False | Some r \<Rightarrow> order_id r' = order_id r))"

lemma level_seq_Nil [simp]: "level_seq h p [] = []"
  by (simp add: level_seq_def map_filter_simps)

lemma level_seq_Cons:
  "level_seq h p (a # as) =
     (case h a of None \<Rightarrow> level_seq h p as | Some r \<Rightarrow> (p, order_id r) # level_seq h p as)"
  by (simp add: level_seq_def map_filter_simps split: option.splits)

lemma ladder_seq_Nil [simp]: "ladder_seq h [] = []"
  by (simp add: ladder_seq_def)

lemma ladder_seq_Cons [simp]:
  "ladder_seq h ((p, q) # l) = level_seq h p (queue_orders q) @ ladder_seq h l"
  by (simp add: ladder_seq_def)

lemma heap_shrinks_refl [simp]: "heap_shrinks h h"
  by (simp add: heap_shrinks_def split: option.splits)


lemma heap_shrinks_free [simp]: "heap_shrinks h (h(a := None))"
  by (simp add: heap_shrinks_def split: option.splits)














section \<open>The index and the queues\<close>

text \<open>
  \<open>ladder_addrs\<close> are the queue entries of a ladder, \<open>entries\<close> the same with the
  price of the level each is queued at, and \<open>all_addrs\<close> the queue entries of the book.
\<close>

definition ladder_addrs :: "ladder \<Rightarrow> addr list" where
  "ladder_addrs l = concat (map (\<lambda>(p, q). queue_orders q) l)"

definition entries :: "ladder \<Rightarrow> (Price \<times> addr) set" where
  "entries l = {(p, a). \<exists>q. (p, q) \<in> set l \<and> a \<in> set (queue_orders q)}"

definition all_addrs :: "OrderBook \<Rightarrow> addr list" where
  "all_addrs b = ladder_addrs (ladder BUY b) @ ladder_addrs (ladder SELL b)"

text \<open>
  \<open>placed\<close>: every queue entry is a live order that is queued on its side at its
  price and that the index holds under its id.  \<open>indexed\<close>: every index entry is the
  address of a live order with that id, and the address is a queue entry.
\<close>

definition placed :: "OrderBook \<Rightarrow> bool" where
  "placed b =
     (\<forall>sd p a. (p, a) \<in> entries (ladder sd b) \<longrightarrow>
        (\<exists>r. heap b a = Some r \<and> side r = sd \<and> price r = p
             \<and> orders b (order_id r) = Some a))"

definition indexed :: "OrderBook \<Rightarrow> bool" where
  "indexed b =
     (\<forall>oid a. orders b oid = Some a \<longrightarrow>
        a \<in> set (all_addrs b) \<and> (\<exists>r. heap b a = Some r \<and> order_id r = oid))"

text \<open>
  The invariant of the book: the two maps are in key order; no address is queued
  twice; queue entries and index entries correspond one to one (\<open>placed\<close>,
  \<open>indexed\<close>); and the allocator has not yet handed out \<open>next_addr\<close>.
\<close>

definition book_inv :: "OrderBook \<Rightarrow> bool" where
  "book_inv b =
     (sorted_ladder BUY b \<and> sorted_ladder SELL b
      \<and> distinct (all_addrs b) \<and> placed b \<and> indexed b
      \<and> (\<forall>a. heap b a \<noteq> None \<longrightarrow> a < next_addr b))"

lemma ladder_addrs_Nil [simp]: "ladder_addrs [] = []"
  by (simp add: ladder_addrs_def)

lemma ladder_addrs_Cons [simp]: "ladder_addrs ((p, q) # l) = queue_orders q @ ladder_addrs l"
  by (simp add: ladder_addrs_def)

lemma entries_Nil [simp]: "entries [] = {}"
  by (simp add: entries_def)

lemma entries_Cons: "entries ((p, q) # l) = (Pair p ` set (queue_orders q)) \<union> entries l"
  by (auto simp: entries_def)

lemma set_ladder_addrs: "set (ladder_addrs l) = snd ` entries l"
proof (induction l)
  case Nil
  then show ?case by simp
next
  case (Cons x l)
  obtain p q where x: "x = (p, q)" by (cases x)
  have "snd ` Pair p ` set (queue_orders q) = set (queue_orders q)"
    by (simp add: image_image)
  with Cons show ?case
    by (simp add: x entries_Cons image_Un)
qed

lemma entries_keys: "(p, a) \<in> entries l \<Longrightarrow> p \<in> fst ` set l"
  by (force simp: entries_def)

text \<open>Erasing, updating and putting a level, counted in queue entries.\<close>

lemma mset_addrs_erase:
  "level_find p l = Some q \<Longrightarrow>
   mset (ladder_addrs l) = mset (queue_orders q) + mset (ladder_addrs (level_erase p l))"
  by (induction l) (auto simp: level_find_def)

lemma mset_addrs_update:
  "level_find p l = Some q \<Longrightarrow>
   mset (ladder_addrs (level_update p q' l)) + mset (queue_orders q)
     = mset (ladder_addrs l) + mset (queue_orders q')"
  by (induction l) (auto simp: level_find_def)

lemma level_find_None_keys: "level_find p l = None \<longleftrightarrow> p \<notin> fst ` set l"
  by (simp add: level_find_def map_of_eq_None_iff)

lemma mset_addrs_put_new:
  "level_find p l = None \<Longrightarrow>
   mset (ladder_addrs (level_put sd p q' l)) = mset (ladder_addrs l) + mset (queue_orders q')"
  by (induction l) (auto simp: level_find_def)

lemma mset_addrs_put_old:
  assumes "sorted_keys sd l" and "level_find p l = Some q"
  shows "mset (ladder_addrs (level_put sd p q' l)) + mset (queue_orders q)
           = mset (ladder_addrs l) + mset (queue_orders q')"
  using assms
proof (induction l)
  case Nil
  then show ?case by (simp add: level_find_def)
next
  case (Cons x l)
  obtain p0 q0 where x: "x = (p0, q0)" by (cases x)
  show ?case
  proof (cases "p = p0")
    case True
    with Cons.prems show ?thesis by (simp add: x level_find_def)
  next
    case False
    with Cons.prems have f: "level_find p l = Some q" by (simp add: x level_find_def)
    then have "p \<in> fst ` set l"
      using level_find_None_keys [of p l] by auto
    with Cons.prems(1) have "before sd p0 p"
      by (auto simp: sorted_keys_def x)
    then have nb: "\<not> before sd p p0"
      using before_trans [of sd p p0 p] by auto
    from Cons.prems(1) have "sorted_keys sd l" by (rule sorted_keys_tail)
    then have "mset (ladder_addrs (level_put sd p q' l)) + mset (queue_orders q)
           = mset (ladder_addrs l) + mset (queue_orders q')"
      using f by (rule Cons.IH)
    with False nb show ?thesis by (simp add: x)
  qed
qed

lemma entries_level_erase: "entries (level_erase p l) \<subseteq> entries l"
  using set_level_erase [of p l] by (auto simp: entries_def)

lemma entries_level_update:
  "level_find p l = Some q \<Longrightarrow> set (queue_orders q') \<subseteq> set (queue_orders q) \<Longrightarrow>
   entries (level_update p q' l) \<subseteq> entries l"
proof (induction l)
  case Nil
  then show ?case by simp
next
  case (Cons x l)
  obtain p0 q0 where x: "x = (p0, q0)" by (cases x)
  show ?case
  proof (cases "p0 = p")
    case True
    with Cons.prems show ?thesis by (auto simp: x level_find_def entries_Cons)
  next
    case False
    with Cons.prems have "level_find p l = Some q" by (simp add: x level_find_def)
    with Cons have "entries (level_update p q' l) \<subseteq> entries l" by simp
    with False show ?thesis by (auto simp: x entries_Cons)
  qed
qed

lemma entries_level_put:
  "entries (level_put sd p q' l) \<subseteq> (Pair p ` set (queue_orders q')) \<union> entries l"
proof (induction l)
  case Nil
  then show ?case by (simp add: entries_Cons)
next
  case (Cons x l)
  obtain p0 q0 where x: "x = (p0, q0)" by (cases x)
  show ?case
  proof (cases "p = p0")
    case True
    then show ?thesis by (auto simp: x entries_Cons)
  next
    case ne: False
    show ?thesis
    proof (cases "before sd p p0")
      case True
      with ne show ?thesis by (auto simp: x entries_Cons)
    next
      case False
      with ne Cons.IH show ?thesis by (auto simp: x entries_Cons)
    qed
  qed
qed

text \<open>One entry less, one entry more.\<close>

lemma mset_less_one:
  assumes "mset ys + {#a#} = mset xs" and "distinct xs"
  shows "distinct ys" "a \<notin> set ys" "set xs = insert a (set ys)"
proof -
  from assms(1) have eq: "mset xs = mset (a # ys)" by simp
  with assms(2) have d: "distinct (a # ys)"
    using mset_eq_imp_distinct_iff by blast
  then show "distinct ys" "a \<notin> set ys" by simp_all
  from eq have "set xs = set (a # ys)" by (rule mset_eq_setD)
  then show "set xs = insert a (set ys)" by simp
qed

subsection \<open>Taking an order out of the book\<close>

lemma sorted_keys_distinct: "sorted_keys sd l \<Longrightarrow> distinct (map fst l)"
  unfolding sorted_keys_def
  by (induction l) auto

lemma entry_level_find:
  assumes "sorted_keys sd l" and "(p, a) \<in> entries l"
  obtains q where "level_find p l = Some q" "a \<in> set (queue_orders q)"
proof -
  from assms(2) obtain q where q: "(p, q) \<in> set l" "a \<in> set (queue_orders q)"
    by (auto simp: entries_def)
  from assms(1) have "distinct (map fst l)" by (rule sorted_keys_distinct)
  with q(1) have "level_find p l = Some q"
    by (simp add: level_find_def)
  then show ?thesis using q(2) by (rule that)
qed

lemma all_addrs_entries:
  "a \<in> set (all_addrs b) \<longleftrightarrow> (\<exists>sd p. (p, a) \<in> entries (ladder sd b))"
proof -
  have "a \<in> set (all_addrs b) \<longleftrightarrow>
        (\<exists>p. (p, a) \<in> entries (ladder BUY b)) \<or> (\<exists>p. (p, a) \<in> entries (ladder SELL b))"
    by (force simp: all_addrs_def set_ladder_addrs)
  also have "\<dots> \<longleftrightarrow> (\<exists>sd p. (p, a) \<in> entries (ladder sd b))"
    by (metis Side.exhaust)
  finally show ?thesis .
qed

text \<open>
  What is left of the invariant when one queue entry goes, together with the index
  entry that holds it and the order itself.
\<close>

lemma book_inv_drop_entry:
  assumes inv: "book_inv b" and idx: "orders b oid = Some a"
    and cnt: "mset (all_addrs b') + {#a#} = mset (all_addrs b)"
    and ent: "\<And>sd. entries (ladder sd b') \<subseteq> entries (ladder sd b)"
    and srt: "\<And>sd. sorted_ladder sd b \<Longrightarrow> sorted_ladder sd b'"
    and ord: "orders b' = (orders b)(oid := None)"
    and hp: "heap b' = (heap b)(a := None)"
    and nxt: "next_addr b' = next_addr b"
  shows "book_inv b'"
proof -
  from inv have d: "distinct (all_addrs b)" and pl: "placed b" and ix: "indexed b"
    and fr: "\<forall>x. heap b x \<noteq> None \<longrightarrow> x < next_addr b"
    by (simp_all add: book_inv_def)
  from cnt d have d': "distinct (all_addrs b')" and na: "a \<notin> set (all_addrs b')"
    and st: "set (all_addrs b) = insert a (set (all_addrs b'))"
    by (rule mset_less_one)+
  from ix idx obtain r where r: "heap b a = Some r" "order_id r = oid"
    by (auto simp: indexed_def)
  have pl': "placed b'"
    unfolding placed_def
  proof (intro allI impI)
    fix sd p x
    assume e: "(p, x) \<in> entries (ladder sd b')"
    then have "x \<in> set (all_addrs b')" using all_addrs_entries by blast
    with na have ne: "x \<noteq> a" by auto
    from e ent have "(p, x) \<in> entries (ladder sd b)" by blast
    with pl obtain rx where rx: "heap b x = Some rx" "side rx = sd" "price rx = p"
      "orders b (order_id rx) = Some x"
      unfolding placed_def by blast
    from rx(4) idx ne have "order_id rx \<noteq> oid" by auto
    with rx ne show "\<exists>r. heap b' x = Some r \<and> side r = sd \<and> price r = p
                        \<and> orders b' (order_id r) = Some x"
      by (simp add: ord hp)
  qed
  have ix': "indexed b'"
    unfolding indexed_def
  proof (intro allI impI)
    fix oid' x
    assume "orders b' oid' = Some x"
    then have o: "oid' \<noteq> oid" "orders b oid' = Some x"
      by (auto simp: ord split: if_splits)
    with ix obtain rx where rx: "x \<in> set (all_addrs b)" "heap b x = Some rx" "order_id rx = oid'"
      by (auto simp: indexed_def)
    from rx(2,3) r o(1) have ne: "x \<noteq> a" by auto
    with rx st show "x \<in> set (all_addrs b') \<and> (\<exists>r. heap b' x = Some r \<and> order_id r = oid')"
      by (auto simp: hp)
  qed
  from fr have "\<forall>x. heap b' x \<noteq> None \<longrightarrow> x < next_addr b'"
    by (simp add: hp nxt)
  with inv srt d' pl' ix' show ?thesis
    by (simp add: book_inv_def)
qed

lemma mset_remove1_entry: "a \<in> set xs \<Longrightarrow> mset (remove1 a xs) + {#a#} = mset xs"
  by simp

lemma remove_from_book_members [simp]:
  "heap (remove_from_book b a ord) = heap b"
  "orders (remove_from_book b a ord) = orders b"
  "next_addr (remove_from_book b a ord) = next_addr b"
  "next_trade_id (remove_from_book b a ord) = next_trade_id b"
  by (simp_all add: remove_from_book_def Let_def split: option.splits)

lemma erase_order_index:
  "orders b oid = Some a \<Longrightarrow>
   orders (erase_order b oid) = (orders b)(oid := None)
   \<and> heap (erase_order b oid) = (heap b)(a := None)"
  by (simp add: erase_order_def)

text \<open>Removing a queued order from its level: one entry less on its side.\<close>

lemma remove_from_book_entry:
  assumes "level_find (price r) (ladder (side r) b) = Some q" and "a \<in> set (queue_orders q)"
  shows "mset (all_addrs (remove_from_book b a r)) + {#a#} = mset (all_addrs b)"
    and "entries (ladder sd (remove_from_book b a r)) \<subseteq> entries (ladder sd b)"
proof -
  let ?l = "ladder (side r) b"
  let ?q' = "plq_remove_order q a r"
  have q': "queue_orders ?q' = remove1 a (queue_orders q)"
    using assms(2) by (simp add: plq_remove_order_def)
  have own: "mset (ladder_addrs (ladder (side r) (remove_from_book b a r))) + {#a#}
             = mset (ladder_addrs ?l)"
  proof (cases "queue_orders ?q' = []")
    case True
    with q' assms(2) have "mset (queue_orders q) = {#a#}"
      using mset_remove1_entry [of a "queue_orders q"] by simp
    with True assms(1) show ?thesis
      using mset_addrs_erase [of "price r" ?l q]
      by (simp add: remove_from_book_def Let_def)
  next
    case False
    have split: "mset (queue_orders q) = mset (queue_orders ?q') + {#a#}"
      using assms(2) by (simp add: q')
    from assms(1) have
      "mset (ladder_addrs (level_update (price r) ?q' ?l)) + mset (queue_orders q)
         = mset (ladder_addrs ?l) + mset (queue_orders ?q')"
      by (rule mset_addrs_update)
    then have "(mset (ladder_addrs (level_update (price r) ?q' ?l)) + {#a#})
                 + mset (queue_orders ?q')
               = mset (ladder_addrs ?l) + mset (queue_orders ?q')"
      unfolding split by (simp only: ac_simps)
    then have "mset (ladder_addrs (level_update (price r) ?q' ?l)) + {#a#} = mset (ladder_addrs ?l)"
      by (rule add_right_imp_eq)
    with False assms(1) show ?thesis
      by (simp add: remove_from_book_def Let_def)
  qed
  have other: "ladder sd' (remove_from_book b a r) = ladder sd' b" if "sd' \<noteq> side r" for sd'
    using that assms(1) by (simp add: remove_from_book_def Let_def)
  show "mset (all_addrs (remove_from_book b a r)) + {#a#} = mset (all_addrs b)"
  proof (cases "side r")
    case BUY
    with own other [of SELL] show ?thesis by (simp add: all_addrs_def)
  next
    case SELL
    with own other [of BUY] show ?thesis by (simp add: all_addrs_def)
  qed
  show "entries (ladder sd (remove_from_book b a r)) \<subseteq> entries (ladder sd b)"
  proof (cases "sd = side r")
    case True
    have "set (queue_orders ?q') \<subseteq> set (queue_orders q)"
      by (simp add: q' set_remove1_subset)
    with assms(1) have "entries (level_update (price r) ?q' ?l) \<subseteq> entries ?l"
      by (rule entries_level_update)
    with True assms(1) show ?thesis
      using entries_level_erase [of "price r" ?l]
      by (simp add: remove_from_book_def Let_def)
  next
    case False
    then show ?thesis by (simp add: other)
  qed
qed

lemma book_inv_remove:
  assumes inv: "book_inv b" and idx: "orders b oid = Some a" and hp: "heap b a = Some r"
  shows "book_inv (erase_order (remove_from_book b a r) oid)"
proof -
  let ?b1 = "remove_from_book b a r"
  from inv idx have "a \<in> set (all_addrs b)"
    by (simp add: book_inv_def indexed_def)
  then obtain sd p where e: "(p, a) \<in> entries (ladder sd b)"
    using all_addrs_entries by blast
  with inv hp have sp: "side r = sd" "price r = p"
    unfolding book_inv_def placed_def by fastforce+
  from inv have "sorted_keys sd (ladder sd b)"
    by (cases sd) (simp_all add: book_inv_def sorted_ladder_def)
  then obtain q where q: "level_find p (ladder sd b) = Some q" "a \<in> set (queue_orders q)"
    using e by (rule entry_level_find)
  then have q': "level_find (price r) (ladder (side r) b) = Some q"
    by (simp add: sp)
  from inv idx show ?thesis
  proof (rule book_inv_drop_entry)
    show "mset (all_addrs (erase_order ?b1 oid)) + {#a#} = mset (all_addrs b)"
      using remove_from_book_entry(1) [OF q' q(2)] by (simp add: all_addrs_def)
    show "entries (ladder sd' (erase_order ?b1 oid)) \<subseteq> entries (ladder sd' b)" for sd'
      using remove_from_book_entry(2) [OF q' q(2)] by simp
    show "sorted_ladder sd' b \<Longrightarrow> sorted_ladder sd' (erase_order ?b1 oid)" for sd'
      using sorted_ladder_remove_from_book [of sd' b a r] by (simp add: sorted_ladder_def)
    show "orders (erase_order ?b1 oid) = (orders b)(oid := None)"
      "heap (erase_order ?b1 oid) = (heap b)(a := None)"
      using idx erase_order_index [of ?b1 oid a] by simp_all
    show "next_addr (erase_order ?b1 oid) = next_addr b" by simp
  qed
qed

subsection \<open>A fill\<close>

lemma front_entry:
  "ladder sd b = (p, q) # l \<Longrightarrow> queue_orders q = a # rest \<Longrightarrow> (p, a) \<in> entries (ladder sd b)"
  by (simp add: entries_Cons)

lemma book_inv_front:
  assumes "book_inv b" and "ladder sd b = (p, q) # l" and "queue_orders q = a # rest"
    and "heap b a = Some r"
  shows "side r = sd" "price r = p" "orders b (order_id r) = Some a"
proof -
  from assms(2,3) have "(p, a) \<in> entries (ladder sd b)" by (rule front_entry)
  with assms(1,4) show "side r = sd" "price r = p" "orders b (order_id r) = Some a"
    unfolding book_inv_def placed_def by fastforce+
qed

text \<open>A change of the heap that leaves every order where and what it is.\<close>

lemma book_inv_heap_update:
  assumes inv: "book_inv b" and hp: "heap b a = Some r"
    and same: "side r' = side r" "price r' = price r" "order_id r' = order_id r"
    and lad: "\<And>sd. ladder sd b' = ladder sd b"
    and ord: "orders b' = orders b" and hp': "heap b' = (heap b)(a \<mapsto> r')"
    and nxt: "next_addr b' = next_addr b"
  shows "book_inv b'"
proof -
  have a: "all_addrs b' = all_addrs b" by (simp add: all_addrs_def lad)
  from inv have pl: "placed b" and ix: "indexed b"
    and fr: "\<forall>x. heap b x \<noteq> None \<longrightarrow> x < next_addr b"
    by (simp_all add: book_inv_def)
  have "placed b'"
    unfolding placed_def
  proof (intro allI impI)
    fix sd p x
    assume "(p, x) \<in> entries (ladder sd b')"
    then have "(p, x) \<in> entries (ladder sd b)" by (simp add: lad)
    with pl obtain rx where "heap b x = Some rx" "side rx = sd" "price rx = p"
      "orders b (order_id rx) = Some x"
      unfolding placed_def by blast
    with hp same show "\<exists>r. heap b' x = Some r \<and> side r = sd \<and> price r = p
                        \<and> orders b' (order_id r) = Some x"
      by (cases "x = a") (simp_all add: hp' ord)
  qed
  moreover have "indexed b'"
    unfolding indexed_def
  proof (intro allI impI)
    fix oid x
    assume "orders b' oid = Some x"
    with ix ord obtain rx where "x \<in> set (all_addrs b)" "heap b x = Some rx" "order_id rx = oid"
      by (auto simp: indexed_def)
    with hp same show "x \<in> set (all_addrs b') \<and> (\<exists>r. heap b' x = Some r \<and> order_id r = oid)"
      by (cases "x = a") (simp_all add: hp' a)
  qed
  moreover from fr hp have "\<forall>x. heap b' x \<noteq> None \<longrightarrow> x < next_addr b'"
    by (auto simp: hp' nxt)
  ultimately show ?thesis
    using inv by (simp add: book_inv_def a sorted_ladder_def lad)
qed

lemma book_inv_fill_step:
  assumes inv: "book_inv b" and lad: "ladder sd b = (p, q) # l"
    and qu: "queue_orders q = a # rest" and hp: "heap b a = Some resting"
    and st: "fill_step sd ts p a resting (ord, trades, b) = (ord', trades', b')"
  shows "book_inv b'"
proof -
  define tq where "tq = min (remaining_quantity ord) (remaining_quantity resting)"
  define resting' where "resting' = resting\<lparr>remaining_quantity := remaining_quantity resting - tq\<rparr>"
  define b2 where "b2 = b\<lparr>next_trade_id := next_trade_id b + 1,
                            heap := (heap b)(a \<mapsto> resting'),
                            trade_count := trade_count b + 1,
                            total_volume := total_volume b + tq\<rparr>"
  have inv2: "book_inv b2"
    using inv hp
  proof (rule book_inv_heap_update)
    show "side resting' = side resting" "price resting' = price resting"
      "order_id resting' = order_id resting"
      by (simp_all add: resting'_def)
  qed (simp_all add: b2_def)
  show ?thesis
  proof (cases "remaining_quantity resting - tq = 0")
    case False
    with st have "b' = b2"
      by (simp add: fill_step_def Let_def create_trade_def tq_def resting'_def b2_def)
    with inv2 show ?thesis by simp
  next
    case True
    with st have b': "b' = erase_order (pop_front sd b2) (order_id resting')"
      by (simp add: fill_step_def Let_def create_trade_def tq_def resting'_def b2_def)
    have lad2: "ladder sd b2 = (p, q) # l" by (simp add: b2_def lad)
    have hp2: "heap b2 a = Some resting'" by (simp add: b2_def)
    from inv2 lad2 qu hp2 have idx: "orders b2 (order_id resting') = Some a"
      by (rule book_inv_front)
    have popped: "ladder sd' (pop_front sd b2) =
        (if sd' = sd then (p, q\<lparr>queue_orders := rest\<rparr>) # l else ladder sd' b2)" for sd'
      by (simp add: ladder_pop_front lad2 qu)
    from inv2 idx show ?thesis
      unfolding b'
    proof (rule book_inv_drop_entry)
      show "mset (all_addrs (erase_order (pop_front sd b2) (order_id resting'))) + {#a#}
              = mset (all_addrs b2)"
        using lad2 qu popped [of BUY] popped [of SELL]
        by (cases sd) (simp_all add: all_addrs_def)
      show "entries (ladder sd' (erase_order (pop_front sd b2) (order_id resting')))
              \<subseteq> entries (ladder sd' b2)" for sd'
        using lad2 qu by (auto simp: popped entries_Cons)
      have "map fst (ladder sd' (pop_front sd b2)) = map fst (ladder sd' b2)" for sd'
        using lad2 by (simp add: popped)
      then show "sorted_ladder sd' b2 \<Longrightarrow>
            sorted_ladder sd' (erase_order (pop_front sd b2) (order_id resting'))" for sd'
        by (simp add: sorted_ladder_def sorted_keys_def)
      show "orders (erase_order (pop_front sd b2) (order_id resting'))
              = (orders b2)(order_id resting' := None)"
        "heap (erase_order (pop_front sd b2) (order_id resting')) = (heap b2)(a := None)"
        using idx erase_order_index [of "pop_front sd b2" "order_id resting'" a] by simp_all
      show "next_addr (erase_order (pop_front sd b2) (order_id resting')) = next_addr b2"
        by simp
    qed
  qed
qed

lemma book_inv_handle_self_trade:
  assumes inv: "book_inv b" and lad: "ladder sd b = (p, q) # l"
    and qu: "queue_orders q = a # rest" and hp: "heap b a = Some resting"
    and h: "handle_self_trade b ord a resting = (ord', b')"
  shows "book_inv b'"
proof -
  from inv lad qu hp have "orders b (order_id resting) = Some a"
    by (rule book_inv_front)
  with inv have "book_inv (erase_order (remove_from_book b a resting) (order_id resting))"
    using hp by (rule book_inv_remove)
  with inv h show ?thesis
    by (auto simp: handle_self_trade_def split: if_splits)
qed

lemma book_inv_drop_level:
  assumes inv: "book_inv b" and lad: "ladder sd b = (p, q) # l" and qu: "queue_orders q = []"
  shows "book_inv (set_ladder sd l b)"
proof -
  let ?b' = "set_ladder sd l b"
  have lad': "ladder sd' ?b' = (if sd' = sd then l else ladder sd' b)" for sd'
    by simp
  have a: "all_addrs ?b' = all_addrs b"
    using lad qu by (cases sd) (simp_all add: all_addrs_def)
  have e: "entries (ladder sd' ?b') \<subseteq> entries (ladder sd' b)" for sd'
    using lad by (auto simp: entries_Cons)
  from inv have pl: "placed b" and ix: "indexed b" by (simp_all add: book_inv_def)
  from pl e have "placed ?b'"
    unfolding placed_def by (metis (no_types, lifting) set_ladder_members(1,2) subsetD)
  moreover from ix have "indexed ?b'"
    by (simp add: indexed_def a)
  moreover have "sorted_ladder sd' ?b'" if "sorted_ladder sd' b" for sd'
    using that lad by (auto simp: sorted_ladder_def sorted_keys_def)
  ultimately show ?thesis
    using inv by (simp add: book_inv_def a)
qed

text \<open>Matching keeps the invariant, and adds nothing to the index.\<close>

lemma orders_fill_step:
  "fill_step sd ts p a resting (ord, trades, b) = (ord', trades', b') \<Longrightarrow>
   orders b oid = None \<Longrightarrow> orders b' oid = None"
  by (auto simp: fill_step_def Let_def create_trade_def erase_order_def
           split: if_splits option.splits)

lemma orders_handle_self_trade:
  "handle_self_trade b ord a resting = (ord', b') \<Longrightarrow>
   orders b oid = None \<Longrightarrow> orders b' oid = None"
  by (auto simp: handle_self_trade_def erase_order_def split: if_splits option.splits)

lemma match_levels_book_inv:
  assumes "match_levels lim sd ts (ord, [], b) = Inr (ord', trades, b')"
    and "book_inv b"
  shows "book_inv b' \<and> (\<forall>oid. orders b oid = None \<longrightarrow> orders b' oid = None)"
proof -
  define I :: "mstate \<Rightarrow> bool" where
    "I = (\<lambda>(o1, t1, b1). book_inv b1 \<and> (\<forall>oid. orders b oid = None \<longrightarrow> orders b1 oid = None))"
  have "I (ord', trades, b') \<and> matching_done lim sd (ord', trades, b')"
    using assms(1)
  proof (rule matching_rule)
    show "I (ord, [], b)" using assms(2) by (simp add: I_def)
  next
    fix o1 t1 b1 p queue l a rest resting
    assume "I (o1, t1, b1)" "ladder sd b1 = (p, queue) # l" "queue_orders queue = a # rest"
      "heap b1 a = Some resting"
    then show "I (fill_step sd ts p a resting (o1, t1, b1))"
      using book_inv_fill_step [of b1 sd p queue l a rest resting ts o1 t1]
        orders_fill_step [of sd ts p a resting o1 t1 b1]
      by (cases "fill_step sd ts p a resting (o1, t1, b1)") (auto simp: I_def)
  next
    fix o1 t1 b1 p queue l a rest resting o2 b2
    assume "I (o1, t1, b1)" "ladder sd b1 = (p, queue) # l" "queue_orders queue = a # rest"
      "heap b1 a = Some resting" "handle_self_trade b1 o1 a resting = (o2, b2)"
    then show "I (o2, t1, b2)"
      using book_inv_handle_self_trade [of b1 sd p queue l a rest resting o1 o2 b2]
        orders_handle_self_trade [of b1 o1 a resting o2 b2]
      by (auto simp: I_def)
  next
    fix o1 t1 b1 p queue l
    assume "I (o1, t1, b1)" "ladder sd b1 = (p, queue) # l" "queue_orders queue = []"
    then show "I (o1, t1, set_ladder sd l b1)"
      using book_inv_drop_level [of b1 sd p queue l] by (simp add: I_def)
  qed
  then show ?thesis by (simp add: I_def)
qed


subsection \<open>An order comes to rest\<close>

lemma subset_insert_step:
  "A \<subseteq> B \<union> E \<Longrightarrow> B = insert x C \<Longrightarrow> C \<subseteq> E \<Longrightarrow> A \<subseteq> insert x E"
  by blast

lemma add_to_book_entries:
  assumes "sorted_ladder (side ord) b"
  shows "mset (all_addrs (add_to_book b a ord)) = mset (all_addrs b) + {#a#}"
    and "entries (ladder sd (add_to_book b a ord))
           \<subseteq> (if sd = side ord then {(price ord, a)} else {}) \<union> entries (ladder sd b)"
    and "(price ord, a) \<in> entries (ladder (side ord) (add_to_book b a ord))"
proof -
  let ?l = "ladder (side ord) b"
  let ?q0 = "case level_find (price ord) ?l of None \<Rightarrow> empty_level | Some q \<Rightarrow> q"
  let ?q' = "plq_add_order ?q0 a ord"
  have q': "queue_orders ?q' = queue_orders ?q0 @ [a]"
    by (simp add: plq_add_order_def)
  from assms have s: "sorted_keys (side ord) ?l" by (simp add: sorted_ladder_def)
  have own: "mset (ladder_addrs (level_put (side ord) (price ord) ?q' ?l))
             = mset (ladder_addrs ?l) + {#a#}"
  proof (cases "level_find (price ord) ?l")
    case None
    then show ?thesis
      using mset_addrs_put_new [of "price ord" ?l "side ord" ?q']
      by (simp add: empty_level_def plq_add_order_def)
  next
    case (Some q)
    with s have
      "mset (ladder_addrs (level_put (side ord) (price ord) ?q' ?l)) + mset (queue_orders q)
         = mset (ladder_addrs ?l) + mset (queue_orders ?q')"
      by (intro mset_addrs_put_old)
    then have
      "mset (ladder_addrs (level_put (side ord) (price ord) ?q' ?l)) + mset (queue_orders q)
         = (mset (ladder_addrs ?l) + {#a#}) + mset (queue_orders q)"
      using Some by (simp add: plq_add_order_def)
    then show ?thesis by (rule add_right_imp_eq)
  qed
  show "mset (all_addrs (add_to_book b a ord)) = mset (all_addrs b) + {#a#}"
    using own by (cases "side ord") (simp_all add: all_addrs_def ladder_add_to_book)
  have sub: "Pair (price ord) ` set (queue_orders ?q0) \<subseteq> entries ?l"
  proof (cases "level_find (price ord) ?l")
    case None
    then show ?thesis by (simp add: empty_level_def)
  next
    case (Some q)
    then have "(price ord, q) \<in> set ?l"
      by (simp add: level_find_def map_of_SomeD)
    with Some show ?thesis by (auto simp: entries_def)
  qed
  show "entries (ladder sd (add_to_book b a ord))
           \<subseteq> (if sd = side ord then {(price ord, a)} else {}) \<union> entries (ladder sd b)"
  proof (cases "sd = side ord")
    case True
    have img: "Pair (price ord) ` set (queue_orders ?q')
            = insert (price ord, a) (Pair (price ord) ` set (queue_orders ?q0))"
      by (simp add: q')
    have "entries (level_put (side ord) (price ord) ?q' ?l)
                     \<subseteq> insert (price ord, a) (entries ?l)"
      by (rule subset_insert_step [OF entries_level_put img sub])
    moreover have "ladder sd (add_to_book b a ord) = level_put (side ord) (price ord) ?q' ?l"
      unfolding True by (simp add: ladder_add_to_book)
    ultimately show ?thesis
      unfolding True by simp
  next
    case False
    then show ?thesis by (simp add: ladder_add_to_book)
  qed
  have "level_find (price ord) (ladder (side ord) (add_to_book b a ord)) = Some ?q'"
    by (simp add: ladder_add_to_book)
  then have "(price ord, ?q') \<in> set (ladder (side ord) (add_to_book b a ord))"
    by (simp add: level_find_def map_of_SomeD)
  then show "(price ord, a) \<in> entries (ladder (side ord) (add_to_book b a ord))"
    unfolding entries_def using q' by auto
qed

lemma queued_is_live:
  assumes "book_inv b" and "x \<in> set (all_addrs b)"
  shows "heap b x \<noteq> None" "x < next_addr b"
proof -
  from assms(2) obtain sd p where "(p, x) \<in> entries (ladder sd b)"
    using all_addrs_entries by blast
  with assms(1) show "heap b x \<noteq> None"
    unfolding book_inv_def placed_def by fastforce
  with assms(1) show "x < next_addr b"
    by (simp add: book_inv_def)
qed

lemma book_inv_rest:
  assumes inv: "book_inv b" and fresh: "orders b (order_id ord) = None"
    and st: "store_order b ord = (a, b1)"
  shows "book_inv (add_to_book b1 a ord)"
proof -
  let ?b' = "add_to_book b1 a ord"
  from st fresh have a: "a = next_addr b"
    and o1: "orders b1 = (orders b)(order_id ord \<mapsto> a)"
    and h1: "heap b1 = (heap b)(a \<mapsto> ord)"
    and n1: "next_addr b1 = a + 1"
    and l1: "\<And>sd. ladder sd b1 = ladder sd b"
    by (auto simp: store_order_def Let_def)
  from inv have pl: "placed b" and ix: "indexed b" and d: "distinct (all_addrs b)"
    and fr: "\<forall>x. heap b x \<noteq> None \<longrightarrow> x < next_addr b"
    by (simp_all add: book_inv_def)
  from inv have srt: "sorted_ladder sd b1" for sd
    by (cases sd) (simp_all add: book_inv_def sorted_ladder_def l1)
  have a1: "all_addrs b1 = all_addrs b" by (simp add: all_addrs_def l1)
  have cnt: "mset (all_addrs ?b') = mset (all_addrs b) + {#a#}"
    using add_to_book_entries(1) [where ord = ord and a = a and b = b1, OF srt] by (simp add: a1)
  have new: "a \<notin> set (all_addrs b)"
    using queued_is_live(2) [OF inv, of a] a by auto
  from cnt have "mset (all_addrs ?b') = mset (a # all_addrs b)" by simp
  then have d': "distinct (all_addrs ?b')" and s': "set (all_addrs ?b') = insert a (set (all_addrs b))"
    using d new mset_eq_imp_distinct_iff [of "all_addrs ?b'" "a # all_addrs b"]
      mset_eq_setD [of "all_addrs ?b'" "a # all_addrs b"] by auto
  have pl': "placed ?b'"
    unfolding placed_def
  proof (intro allI impI)
    fix sd p x
    assume "(p, x) \<in> entries (ladder sd ?b')"
    then have "(sd = side ord \<and> p = price ord \<and> x = a) \<or> (p, x) \<in> entries (ladder sd b)"
      using add_to_book_entries(2) [where ord = ord and a = a and b = b1 and sd = sd, OF srt]
      by (auto simp: l1 split: if_splits)
    then show "\<exists>r. heap ?b' x = Some r \<and> side r = sd \<and> price r = p
                   \<and> orders ?b' (order_id r) = Some x"
    proof
      assume "sd = side ord \<and> p = price ord \<and> x = a"
      then show ?thesis by (simp add: o1 h1)
    next
      assume e: "(p, x) \<in> entries (ladder sd b)"
      with pl obtain rx where rx: "heap b x = Some rx" "side rx = sd" "price rx = p"
        "orders b (order_id rx) = Some x"
        unfolding placed_def by blast
      from e have "x \<in> set (all_addrs b)" using all_addrs_entries by blast
      with new have "x \<noteq> a" by auto
      moreover from rx(4) fresh have "order_id rx \<noteq> order_id ord" by auto
      ultimately show ?thesis using rx by (simp add: o1 h1)
    qed
  qed
  have ix': "indexed ?b'"
    unfolding indexed_def
  proof (intro allI impI)
    fix oid x
    assume o: "orders ?b' oid = Some x"
    show "x \<in> set (all_addrs ?b') \<and> (\<exists>r. heap ?b' x = Some r \<and> order_id r = oid)"
    proof (cases "oid = order_id ord")
      case True
      with o have "x = a" by (simp add: o1)
      with True show ?thesis by (simp add: h1 s')
    next
      case False
      with o have "orders b oid = Some x" by (simp add: o1)
      with ix obtain rx where rx: "x \<in> set (all_addrs b)" "heap b x = Some rx" "order_id rx = oid"
        by (auto simp: indexed_def)
      with new have "x \<noteq> a" by auto
      with rx show ?thesis by (simp add: h1 s')
    qed
  qed
  from fr have fr': "\<forall>x. heap ?b' x \<noteq> None \<longrightarrow> x < next_addr ?b'"
    by (auto simp: h1 n1 a)
  have "sorted_ladder sd ?b'" for sd
  proof (cases "sd = side ord")
    case True
    from srt [of "side ord"] show ?thesis
      unfolding True sorted_ladder_def
      by (simp add: ladder_add_to_book sorted_keys_level_put)
  next
    case False
    with srt [of sd] show ?thesis
      by (simp add: sorted_ladder_def ladder_add_to_book)
  qed
  with d' pl' ix' fr' show ?thesis
    by (simp add: book_inv_def)
qed

text \<open>
  An order that rests under an id the index already holds: the old order is destroyed
  and its queue entry stays behind.
\<close>

lemma duplicate_id_breaks:
  assumes inv: "book_inv b" and dup: "orders b (order_id ord) = Some old"
    and st: "store_order b ord = (a, b1)"
  shows "orders (add_to_book b1 a ord) (order_id ord) = Some (next_addr b)"
    and "heap (add_to_book b1 a ord) old = None"
    and "old \<in> set (all_addrs (add_to_book b1 a ord))"
    and "\<not> book_inv (add_to_book b1 a ord)"
proof -
  let ?b' = "add_to_book b1 a ord"
  from st dup have a: "a = next_addr b"
    and o1: "orders b1 = (orders b)(order_id ord \<mapsto> a)"
    and h1: "heap b1 = ((heap b)(old := None))(a \<mapsto> ord)"
    and l1: "\<And>sd. ladder sd b1 = ladder sd b"
    by (auto simp: store_order_def Let_def)
  from inv dup have q: "old \<in> set (all_addrs b)"
    by (simp add: book_inv_def indexed_def)
  with inv have "old < next_addr b" by (rule queued_is_live)
  with a have ne: "old \<noteq> a" by simp
  from inv have srt: "sorted_ladder sd b1" for sd
    by (cases sd) (simp_all add: book_inv_def sorted_ladder_def l1)
  have "mset (all_addrs ?b') = mset (all_addrs b1) + {#a#}"
    using srt by (rule add_to_book_entries(1))
  then have "set (all_addrs ?b') = insert a (set (all_addrs b1))"
    using mset_eq_setD [of "all_addrs ?b'" "a # all_addrs b1"] by simp
  with q show in_q: "old \<in> set (all_addrs ?b')"
    by (simp add: all_addrs_def l1)
  show "orders ?b' (order_id ord) = Some (next_addr b)" by (simp add: o1 a)
  from ne show dead: "heap ?b' old = None" by (simp add: h1)
  show "\<not> book_inv ?b'"
  proof
    assume "book_inv ?b'"
    then have "heap ?b' old \<noteq> None" using in_q by (rule queued_is_live)
    with dead show False by simp
  qed
qed

subsection \<open>The three operations\<close>

lemma book_inv_add_order_run:
  assumes "add_order_run b ord now = Inr (ord', trades, b')" and "book_inv b"
    and "orders b (order_id ord) = None"
  shows "book_inv b'"
  using assms(1)
proof (cases rule: add_order_run_cases)
  case (gone t0)
  from gone(1) obtain lim where
    "match_levels lim (opposite (side ord)) now (ord, [], b) = Inr (ord', t0, b')"
    by (rule match_order_cases)
  with assms(2) show ?thesis
    using match_levels_book_inv by blast
next
  case (rests b0 a b1)
  from rests(1) obtain lim where
    "match_levels lim (opposite (side ord)) now (ord, [], b) = Inr (ord', trades, b0)"
    by (rule match_order_cases)
  with assms(2,3) have "book_inv b0" "orders b0 (order_id ord) = None"
    using match_levels_book_inv by blast+
  moreover from rests(1) have "order_id ord' = order_id ord"
    using match_order_same_order same_order_fields(1) by blast
  ultimately show ?thesis
    unfolding rests(6) using rests(5) by (intro book_inv_rest) simp_all
qed

lemma book_inv_add_order:
  assumes "add_order b ord now = Inr (trades, b')" and "book_inv b"
    and "orders b (order_id ord) = None"
  shows "book_inv b'"
proof -
  from assms(1) obtain ord' where "add_order_run b ord now = Inr (ord', trades, b')"
    unfolding add_order_def by (auto split: sum.splits)
  then show ?thesis using assms(2,3) by (rule book_inv_add_order_run)
qed

lemma book_inv_cancel_order:
  assumes "cancel_order b oid = Inr (ok, b')" and "book_inv b"
  shows "book_inv b'"
  using assms
  by (auto simp: cancel_order_def book_inv_remove split: option.splits)

lemma book_inv_replace_order:
  assumes "replace_order b oid p q now = Inr (trades, b')" and "book_inv b"
  shows "book_inv b'"
proof (cases "orders b oid")
  case None
  with assms show ?thesis by (simp add: replace_order_def)
next
  case (Some a)
  with assms(1) obtain old where old: "heap b a = Some old"
    by (auto simp: replace_order_def split: option.splits)
  let ?b2 = "erase_order (remove_from_book b a old) oid"
  let ?new = "old\<lparr>price := p, quantity := q, remaining_quantity := q\<rparr>"
  from Some old assms(1) have run: "add_order ?b2 ?new now = Inr (trades, b')"
    by (simp add: replace_order_def Let_def)
  from assms(2) Some old have inv2: "book_inv ?b2" by (rule book_inv_remove)
  from assms(2) Some obtain r where "heap b a = Some r" "order_id r = oid"
    unfolding book_inv_def indexed_def by blast
  with old have "order_id old = oid" by simp
  moreover have "orders ?b2 oid = None"
    using Some erase_order_index [of "remove_from_book b a old" oid a] by simp
  ultimately have "orders ?b2 (order_id ?new) = None" by simp
  with run inv2 show ?thesis by (rule book_inv_add_order)
qed

section \<open>Binary snapshot codec (binary_serializer.cpp)\<close>

text \<open>
  \<open>to_binary\<close> fills a packed header whose multi-byte fields went through
  \<open>htons\<close>, \<open>htonl\<close> and \<open>htonll\<close>, and copies the bytes of the struct into
  the buffer.  The bytes that reach the buffer are the big-endian bytes of each field;
  \<open>be16\<close>, \<open>be32\<close> and \<open>be64\<close> write them, \<open>rd32\<close> and \<open>rd64\<close> are the
  reads through \<open>ntohl\<close> and \<open>ntohll\<close>.
\<close>

definition be16 :: "16 word \<Rightarrow> byte list" where
  "be16 w = [ucast (drop_bit 8 w), ucast w]"

definition be32 :: "32 word \<Rightarrow> byte list" where
  "be32 w = [ucast (drop_bit 24 w), ucast (drop_bit 16 w), ucast (drop_bit 8 w), ucast w]"

definition be64 :: "64 word \<Rightarrow> byte list" where
  "be64 w =
     [ucast (drop_bit 56 w), ucast (drop_bit 48 w), ucast (drop_bit 40 w),
      ucast (drop_bit 32 w), ucast (drop_bit 24 w), ucast (drop_bit 16 w),
      ucast (drop_bit 8 w), ucast w]"

definition rd32 :: "byte list \<Rightarrow> 32 word" where
  "rd32 bs =
     (case bs of
        [a, b, c, d] \<Rightarrow>
          push_bit 24 (ucast a) OR push_bit 16 (ucast b) OR push_bit 8 (ucast c) OR ucast d
      | _ \<Rightarrow> 0)"

definition rd64 :: "byte list \<Rightarrow> 64 word" where
  "rd64 bs =
     (case bs of
        [a, b, c, d, e, f, g, h] \<Rightarrow>
          push_bit 56 (ucast a) OR push_bit 48 (ucast b) OR push_bit 40 (ucast c) OR
          push_bit 32 (ucast d) OR push_bit 24 (ucast e) OR push_bit 16 (ucast f) OR
          push_bit 8 (ucast g) OR ucast h
      | _ \<Rightarrow> 0)"

text \<open>The bytes \<open>data[off .. off + n)\<close>.\<close>

definition bytes_at :: "byte list \<Rightarrow> nat \<Rightarrow> nat \<Rightarrow> byte list" where
  "bytes_at data off n = take n (drop off data)"

definition byte_of_char :: "char \<Rightarrow> byte" where
  "byte_of_char c = of_char c"

definition char_of_byte :: "byte \<Rightarrow> char" where
  "char_of_byte b = char_of (unat b)"

text \<open>One \<open>BinaryPriceLevel\<close>: 16 bytes, price then quantity.\<close>

definition write_level :: "PriceLevel \<Rightarrow> byte list" where
  "write_level level = be64 (pl_price level) @ be64 (pl_quantity level)"

text \<open>
  The header is 32 bytes: magic, version, \<open>symbol_len\<close> (the symbol's size cast to
  \<open>uint8_t\<close>), reserved, \<open>num_bids\<close> and \<open>num_asks\<close> (sizes cast to
  \<open>uint32_t\<close>), timestamp, sequence number.
\<close>

definition write_header :: "DepthSnapshot \<Rightarrow> byte list" where
  "write_header s =
     be32 0x4C4F4231 @ be16 1 @
     [of_nat (length (ds_symbol s))] @ [0] @
     be32 (of_nat (length (ds_bids s))) @
     be32 (of_nat (length (ds_asks s))) @
     be64 (ds_timestamp s) @
     be64 (ds_sequence_number s)"

definition to_binary :: "DepthSnapshot \<Rightarrow> byte list" where
  "to_binary s =
     write_header s @
     map byte_of_char (ds_symbol s) @
     concat (map write_level (ds_bids s)) @
     concat (map write_level (ds_asks s)) @
     [0, 0, 0, 0]"

text \<open>
  The two read loops of \<open>from_binary\<close>: up to \<open>n\<close> levels from offset \<open>off\<close>,
  stopping early (\<open>break\<close>) when fewer than 16 bytes are left.  The result is the
  levels read and the offset reached.
\<close>

fun read_levels :: "nat \<Rightarrow> nat \<Rightarrow> byte list \<Rightarrow> PriceLevel list \<times> nat" where
  "read_levels 0 off data = ([], off)"
| "read_levels (Suc n) off data =
     (if off + 16 > length data then ([], off)
      else
        let level = \<lparr>pl_price = rd64 (bytes_at data off 8),
                     pl_quantity = rd64 (bytes_at data (off + 8) 8),
                     order_count = 0\<rparr>;
            (levels, off') = read_levels n (off + 16) data
        in (level # levels, off'))"

text \<open>
  \<open>from_binary\<close> returns a default snapshot on a short buffer or a wrong magic.  It
  builds the symbol from \<open>symbol_len\<close> bytes at offset 32 without a bounds check:
  reading past the buffer is the error \<open>ReadPastEnd\<close>.
\<close>

datatype codec_error = ReadPastEnd

definition from_binary :: "byte list \<Rightarrow> codec_error + DepthSnapshot" where
  "from_binary data =
     (if length data < 32 then Inr empty_snapshot
      else if rd32 (bytes_at data 0 4) \<noteq> 0x4C4F4231 then Inr empty_snapshot
      else
        let ts = rd64 (bytes_at data 16 8);
            sq = rd64 (bytes_at data 24 8);
            num_bids = unat (rd32 (bytes_at data 8 4));
            num_asks = unat (rd32 (bytes_at data 12 4));
            symbol_len = unat (data ! 6)
        in if 32 + symbol_len > length data then Inl ReadPastEnd
           else
             let sym = map char_of_byte (bytes_at data 32 symbol_len);
                 (bs, off1) = read_levels num_bids (32 + symbol_len) data;
                 (as, off2) = read_levels num_asks off1 data
             in Inr \<lparr>ds_symbol = sym, ds_bids = bs, ds_asks = as,
                      ds_timestamp = ts, ds_sequence_number = sq\<rparr>)"

text \<open>What decoding does to a level: \<open>order_count\<close> is not stored and comes back 0.\<close>

definition reset_count :: "PriceLevel \<Rightarrow> PriceLevel" where
  "reset_count level = level\<lparr>order_count := 0\<rparr>"

text \<open>A snapshot whose symbol is 256 bytes long, one more than \<open>symbol_len\<close> can say.\<close>

definition long_symbol_snapshot :: DepthSnapshot where
  "long_symbol_snapshot =
     \<lparr>ds_symbol = replicate 256 CHR ''A'', ds_bids = [], ds_asks = [],
      ds_timestamp = 7, ds_sequence_number = 3\<rparr>"

section \<open>Fills and the remaining quantity (claim C3)\<close>

text \<open>The sum of the fill quantities of a list of trades.\<close>

definition filled :: "TradeEvent list \<Rightarrow> nat" where
  "filled trades = sum_list (map (\<lambda>t. unat (t_quantity t)) trades)"

lemma filled_append [simp]: "filled (xs @ ys) = filled xs + filled ys"
  by (simp add: filled_def)

lemma filled_Nil [simp]: "filled [] = 0"
  by (simp add: filled_def)



lemma stp_policy_remove_from_book [simp]:
  "stp_policy (remove_from_book b a ord) = stp_policy b"
  by (simp add: remove_from_book_def Let_def split: option.splits)







section \<open>Fill-or-kill (claim C2)\<close>

text \<open>
  Claim C2 at a resting sell of 50 and a FOK buy of 100, both at 10000.  The buy cannot
  be filled in full.  \<open>add_order\<close> returns no trade and does not rest the order, as
  the claim says; but the matching that ran first took the 50 from the book: the ask
  level and the resting order are gone, and the trade counters moved.
\<close>

theorem fok_unfillable_changes_book:
  "add_order (one_ask_book NONE 100 50) (new_order 2 101 BUY LIMIT 10000 100 FOK) 2
     = Inr ([], (one_ask_book NONE 100 50)
                  \<lparr>asks := [], orders := Map.empty, heap := Map.empty,
                   next_trade_id := 2, trade_count := 1, total_volume := 50\<rparr>)
   \<and> asks (one_ask_book NONE 100 50) \<noteq> []"
  by (simp add: book_eval)

section \<open>Market orders on an empty opposing side (claim C6)\<close>

text \<open>
  Claim C6 at a fresh book and a market buy of 50 with time-in-force DAY.  No trade is
  returned, but the order rests: it is queued on the bid side at its price field (0)
  and entered in the index.
\<close>

theorem market_order_rests:
  "add_order (new_book ''TEST'' NONE) (new_order 2 101 BUY MARKET 0 50 DAY) 2
     = Inr ([], (new_book ''TEST'' NONE)
                  \<lparr>bids := [(0, \<lparr>queue_orders = [0], total_quantity = 50\<rparr>)],
                   orders := [2 \<mapsto> 0],
                   heap := [0 \<mapsto> new_order 2 101 BUY MARKET 0 50 DAY],
                   next_addr := 1\<rparr>)"
  by (simp add: book_eval)

section \<open>Replace is cancel followed by add (claim C7)\<close>

lemma add_to_book_back:
  "\<exists>lvl. level_find (price ord) (ladder (side ord) (add_to_book b a ord)) = Some lvl
         \<and> queue_orders lvl \<noteq> [] \<and> last (queue_orders lvl) = a"
  by (simp add: add_to_book_def Let_def plq_add_order_def)

text \<open>
  Claim C7.  For an order that is resident under \<open>oid\<close>, \<open>replace_order\<close> is
  \<open>cancel_order\<close> (which succeeds) followed by \<open>add_order\<close> of the old order with
  the new price, quantity and remaining quantity, every other field as it was.  If the
  new order comes to rest, it is the last in the queue of the level at the new price on
  its side, and the index holds it.
\<close>

theorem replace_is_cancel_then_add:
  assumes "orders b oid = Some a" and "heap b a = Some old"
  shows "\<exists>b1. cancel_order b oid = Inr (True, b1)
          \<and> replace_order b oid p q now
              = add_order b1 (old\<lparr>price := p, quantity := q, remaining_quantity := q\<rparr>) now
          \<and> (\<forall>ord' trades b'.
                add_order_run b1 (old\<lparr>price := p, quantity := q, remaining_quantity := q\<rparr>) now
                  = Inr (ord', trades, b')
                \<and> remaining_quantity ord' \<noteq> 0 \<and> \<not> is_ioc old \<and> \<not> is_fok old \<longrightarrow>
                (\<exists>lvl. level_find p (ladder (side old) b') = Some lvl
                   \<and> queue_orders lvl \<noteq> []
                   \<and> orders b' (order_id old) = Some (last (queue_orders lvl))
                   \<and> heap b' (last (queue_orders lvl)) = Some ord'))"
proof -
  let ?new = "old\<lparr>price := p, quantity := q, remaining_quantity := q\<rparr>"
  let ?b1 = "erase_order (remove_from_book b a old) oid"
  have c: "cancel_order b oid = Inr (True, ?b1)"
    using assms by (simp add: cancel_order_def)
  have r: "replace_order b oid p q now = add_order ?b1 ?new now"
    using assms by (simp add: replace_order_def Let_def)
  have at_back: "\<exists>lvl. level_find p (ladder (side old) b') = Some lvl
                   \<and> queue_orders lvl \<noteq> []
                   \<and> orders b' (order_id old) = Some (last (queue_orders lvl))
                   \<and> heap b' (last (queue_orders lvl)) = Some ord'"
    if run: "add_order_run ?b1 ?new now = Inr (ord', trades, b')"
      and rem: "remaining_quantity ord' \<noteq> 0" and tif: "\<not> is_ioc old" "\<not> is_fok old"
    for ord' trades b'
    using run
  proof (cases rule: add_order_run_cases)
    case (gone t0)
    with rem tif show ?thesis by (simp add: is_ioc_def is_fok_def)
  next
    case (rests b0 a' b2)
    from rests(1) have "same_order ?new ord'" by (rule match_order_same_order)
    then have f: "price ord' = p" "side ord' = side old" "order_id ord' = order_id old"
      using same_order_fields [of ?new ord'] by simp_all
    from add_to_book_back [of ord' b2 a'] obtain lvl where
      "level_find p (ladder (side old) b') = Some lvl" "queue_orders lvl \<noteq> []"
      "last (queue_orders lvl) = a'"
      unfolding rests(6) f by blast
    moreover from rests(5) have "orders b2 (order_id old) = Some a'" "heap b2 a' = Some ord'"
      using store_order_result [of b0 ord' a' b2] f by simp_all
    ultimately show ?thesis
      unfolding rests(6) by auto
  qed
  from c r at_back show ?thesis by blast
qed

text \<open>
  At the book with one resting sell of 100 at 10000: replacing it by 70 at 10005 cancels
  it and adds the new order, which rests alone at 10005.
\<close>

theorem replace_is_cancel_then_add_witness:
  "orders (one_ask_book NONE 100 100) 1 = Some 0
   \<and> heap (one_ask_book NONE 100 100) 0 = Some (new_order 1 100 SELL LIMIT 10000 100 DAY)
   \<and> (\<exists>b1. cancel_order (one_ask_book NONE 100 100) 1 = Inr (True, b1)
        \<and> asks b1 = []
        \<and> replace_order (one_ask_book NONE 100 100) 1 10005 70 2
            = add_order b1 (new_order 1 100 SELL LIMIT 10005 70 DAY) 2)
   \<and> (case replace_order (one_ask_book NONE 100 100) 1 10005 70 2 of
         Inl e \<Rightarrow> False
       | Inr (trades, b') \<Rightarrow>
           trades = [] \<and> asks b' = [(10005, \<lparr>queue_orders = [1], total_quantity = 70\<rparr>)]
           \<and> orders b' 1 = Some 1)"
proof -
  let ?b = "one_ask_book NONE 100 100"
  have h: "orders ?b 1 = Some 0" "heap ?b 0 = Some (new_order 1 100 SELL LIMIT 10000 100 DAY)"
    by (simp_all add: one_ask_book_def)
  from replace_is_cancel_then_add [OF h, of 10005 70 2]
  obtain b1 where b1: "cancel_order ?b 1 = Inr (True, b1)"
    "replace_order ?b 1 10005 70 2
       = add_order b1 ((new_order 1 100 SELL LIMIT 10000 100 DAY)
                         \<lparr>price := 10005, quantity := 70, remaining_quantity := 70\<rparr>) 2"
    by blast
  have n: "(new_order 1 100 SELL LIMIT 10000 100 DAY)
             \<lparr>price := 10005, quantity := 70, remaining_quantity := 70\<rparr>
           = new_order 1 100 SELL LIMIT 10005 70 DAY"
    by (simp add: new_order_def)
  from b1(1) have "asks b1 = []"
    by (auto simp: book_eval)
  moreover have "(case replace_order ?b 1 10005 70 2 of
         Inl e \<Rightarrow> False
       | Inr (trades, b') \<Rightarrow>
           trades = [] \<and> asks b' = [(10005, \<lparr>queue_orders = [1], total_quantity = 70\<rparr>)]
           \<and> orders b' 1 = Some 1)"
    by (simp add: book_eval)
  ultimately show ?thesis
    using h b1 n by auto
qed

section \<open>The book is never crossed (claim C4)\<close>

lemma ladders_ok_new_book [simp]: "ladders_ok (new_book name pol)"
  by (simp add: ladders_ok_def not_crossed_def sorted_ladder_def sorted_keys_def
                ladder_keys_def new_book_def ladder_def split: Side.splits)

text \<open>
  An order that rests was not stopped by a full fill, so matching ended at an empty
  opposing ladder or at a best opposing price that its own price does not reach.
\<close>

lemma resting_price_outside:
  assumes "matching_done lim (opposite (side ord)) (ord, trades, b)"
    and "remaining_quantity ord \<noteq> 0"
    and "sorted_ladder (opposite (side ord)) b"
    and "k \<in> set (ladder_keys (opposite (side ord)) b)"
  shows "case side ord of BUY \<Rightarrow> sint (price ord) < sint k | SELL \<Rightarrow> sint k < sint (price ord)"
proof -
  from assms(1,2,4) obtain p q l where
    lad: "ladder (opposite (side ord)) b = (p, q) # l"
    and nc: "no_cross (opposite (side ord)) ord p"
    unfolding matching_done_def ladder_keys_def
    by (auto split: list.splits)
  from assms(4) lad have "k = p \<or> k \<in> set (map fst l)"
    by (auto simp: ladder_keys_def)
  then have "k = p \<or> before (opposite (side ord)) p k"
    using assms(3) lad sorted_keys_head [of "opposite (side ord)" p q l k]
    by (auto simp: sorted_ladder_def)
  with nc show ?thesis
    by (cases "side ord") (auto simp: no_cross_def before_def opposite_def)
qed

lemma ladders_ok_rest:
  assumes ok: "ladders_ok b"
    and outside: "\<forall>k \<in> set (ladder_keys (opposite (side ord)) b).
        case side ord of BUY \<Rightarrow> sint (price ord) < sint k | SELL \<Rightarrow> sint k < sint (price ord)"
  shows "ladders_ok (add_to_book b a ord)"
proof -
  let ?b' = "add_to_book b a ord"
  let ?sd = "side ord"
  have same: "ladder (opposite ?sd) ?b' = ladder (opposite ?sd) b"
    by (cases ?sd) (simp_all add: ladder_add_to_book opposite_def)
  have keys: "set (ladder_keys ?sd ?b') = insert (price ord) (set (ladder_keys ?sd b))"
    by (simp add: ladder_keys_def ladder_add_to_book keys_level_put)
  have sorted: "sorted_ladder ?sd ?b'" if "sorted_ladder ?sd b"
    using that by (simp add: sorted_ladder_def ladder_add_to_book sorted_keys_level_put)
  show ?thesis
  proof (cases ?sd)
    case BUY
    with ok same keys sorted outside show ?thesis
      by (auto simp: ladders_ok_def not_crossed_def sorted_ladder_def ladder_keys_def opposite_def)
  next
    case SELL
    with ok same keys sorted outside show ?thesis
      by (auto simp: ladders_ok_def not_crossed_def sorted_ladder_def ladder_keys_def opposite_def)
  qed
qed

lemma ladders_ok_add_order_run:
  assumes "add_order_run b ord now = Inr (ord', trades, b')" and "ladders_ok b"
  shows "ladders_ok b'"
  using assms(1)
proof (cases rule: add_order_run_cases)
  case (gone t0)
  from gone(1) obtain lim where
    "match_levels lim (opposite (side ord)) now (ord, [], b) = Inr (ord', t0, b')"
    by (rule match_order_cases)
  with assms(2) show ?thesis
    using match_levels_ladders_ok by blast
next
  case (rests b0 a b1)
  from rests(1) obtain lim where
    m: "match_levels lim (opposite (side ord)) now (ord, [], b) = Inr (ord', trades, b0)"
    by (rule match_order_cases)
  from rests(1) have "same_order ord ord'" by (rule match_order_same_order)
  then have sd: "side ord' = side ord" by (simp add: same_order_fields)
  from m assms(2) have ok0: "ladders_ok b0"
    and fin: "matching_done lim (opposite (side ord')) (ord', trades, b0)"
    using match_levels_ladders_ok sd by auto
  from rests(5) have lad: "ladder BUY b1 = ladder BUY b0" "ladder SELL b1 = ladder SELL b0"
    by (simp_all add: ladder_store_order)
  then have ok1: "ladders_ok b1"
    using ok0 ladders_ok_same_ladders by blast
  have "sorted_ladder (opposite (side ord')) b0"
    using ok0 by (cases "side ord'") (simp_all add: ladders_ok_def opposite_def)
  with fin rests(2)
  have "\<forall>k \<in> set (ladder_keys (opposite (side ord')) b0).
        case side ord' of BUY \<Rightarrow> sint (price ord') < sint k
                        | SELL \<Rightarrow> sint k < sint (price ord')"
    using resting_price_outside by blast
  moreover have "ladder_keys (opposite (side ord')) b1 = ladder_keys (opposite (side ord')) b0"
    using lad by (cases "side ord'") (simp_all add: ladder_keys_def opposite_def)
  ultimately show ?thesis
    unfolding rests(6) using ok1 by (intro ladders_ok_rest) simp_all
qed

lemma ladders_ok_add_order:
  assumes "add_order b ord now = Inr (trades, b')" and "ladders_ok b"
  shows "ladders_ok b'"
proof -
  from assms(1) obtain ord' where "add_order_run b ord now = Inr (ord', trades, b')"
    unfolding add_order_def by (auto split: sum.splits)
  then show ?thesis using assms(2) by (rule ladders_ok_add_order_run)
qed

lemma ladders_ok_cancel_order:
  assumes "cancel_order b oid = Inr (ok, b')" and "ladders_ok b"
  shows "ladders_ok b'"
  using assms
  by (auto simp: cancel_order_def ladders_ok_remove_from_book split: option.splits)

lemma ladders_ok_replace_order:
  assumes "replace_order b oid p q now = Inr (trades, b')" and "ladders_ok b"
  shows "ladders_ok b'"
proof (cases "orders b oid")
  case None
  with assms show ?thesis by (simp add: replace_order_def)
next
  case (Some a)
  with assms(1) obtain old where old: "heap b a = Some old"
    by (auto simp: replace_order_def split: option.splits)
  with Some assms(1) have
    "add_order (erase_order (remove_from_book b a old) oid)
       (old\<lparr>price := p, quantity := q, remaining_quantity := q\<rparr>) now = Inr (trades, b')"
    by (simp add: replace_order_def Let_def)
  moreover have "ladders_ok (erase_order (remove_from_book b a old) oid)"
    using assms(2) by (simp add: ladders_ok_remove_from_book)
  ultimately show ?thesis by (rule ladders_ok_add_order)
qed

lemma ladders_ok_apply_request:
  assumes "apply_request b req now = Inr (trades, b')" and "ladders_ok b"
  shows "ladders_ok b'"
proof (cases req)
  case (AddOrder ord)
  with assms show ?thesis
    by (auto simp: apply_request_def intro: ladders_ok_add_order)
next
  case (CancelOrder oid)
  with assms show ?thesis
    by (auto simp: apply_request_def split: sum.splits intro: ladders_ok_cancel_order)
next
  case (ReplaceOrder oid p q)
  with assms show ?thesis
    by (auto simp: apply_request_def intro: ladders_ok_replace_order)
qed

lemma ladders_ok_replay:
  "replay b reqs = Inr b' \<Longrightarrow> ladders_ok b \<Longrightarrow> ladders_ok b'"
proof (induction reqs arbitrary: b)
  case Nil
  then show ?case by simp
next
  case (Cons r reqs)
  obtain req now where r: "r = (req, now)" by (cases r)
  from Cons.prems(1) obtain trades b1 where
    step: "apply_request b req now = Inr (trades, b1)" and rest: "replay b1 reqs = Inr b'"
    by (auto simp: r split: sum.splits)
  from step Cons.prems(2) have "ladders_ok b1" by (rule ladders_ok_apply_request)
  with rest show ?case by (rule Cons.IH)
qed

lemma ladders_ok_best:
  assumes "ladders_ok b" and "get_best_bid b = Some pb" and "get_best_ask b = Some pa"
  shows "sint pb < sint pa"
  using assms
  by (auto simp: ladders_ok_def not_crossed_def ladder_keys_def ladder_def
                 get_best_bid_def get_best_ask_def split: list.splits)

text \<open>
  Claim C4.  Whatever requests a fresh book has served, under whatever policy, with
  limit and market orders alike: when it has a best bid and a best ask, the best bid is
  below the best ask.  (A stream is a stream of calls that returned; each of its
  prefixes is one, so this holds after every operation.)
\<close>

theorem book_never_crossed:
  assumes "replay (new_book name pol) reqs = Inr b"
    and "get_best_bid b = Some pb" and "get_best_ask b = Some pa"
  shows "sint pb < sint pa"
proof -
  from assms(1) have "ladders_ok b"
    by (rule ladders_ok_replay) simp
  then show ?thesis using assms(2,3) by (rule ladders_ok_best)
qed

text \<open>The sample stream ends with a best bid of 10001 and a best ask of 10005.\<close>

theorem book_never_crossed_witness:
  "(case replay (new_book ''TEST'' CANCEL_INCOMING) sample_stream of
      Inl e \<Rightarrow> False
    | Inr b \<Rightarrow> get_best_bid b = Some 10001 \<and> get_best_ask b = Some 10005)
   \<and> sint (10001 :: Price) < sint (10005 :: Price)"
proof -
  obtain b where r: "replay (new_book ''TEST'' CANCEL_INCOMING) sample_stream = Inr b"
    and bb: "get_best_bid b = Some 10001" and ba: "get_best_ask b = Some 10005"
    by (simp add: book_eval get_best_bid_def get_best_ask_def)
  from book_never_crossed [OF r bb ba] r bb ba show ?thesis by simp
qed

section \<open>The resting orders in price-time priority\<close>

text \<open>
  \<open>resting_seq sd b\<close> lists the resting orders of the ladder of side \<open>sd\<close> in
  price-time priority, each with the price of its level: level after level from the
  best price on, and within a level from the front of the queue (the oldest order) to
  its back.  \<open>book_seq\<close> is the same list with each order reduced to its \<open>order_id\<close>.
\<close>

definition level_orders :: "(addr \<rightharpoonup> Order) \<Rightarrow> Price \<Rightarrow> addr list \<Rightarrow> (Price \<times> Order) list" where
  "level_orders h p as = List.map_filter (\<lambda>a. map_option (Pair p) (h a)) as"

definition ladder_orders :: "(addr \<rightharpoonup> Order) \<Rightarrow> ladder \<Rightarrow> (Price \<times> Order) list" where
  "ladder_orders h l = concat (map (\<lambda>(p, q). level_orders h p (queue_orders q)) l)"

definition resting_seq :: "Side \<Rightarrow> OrderBook \<Rightarrow> (Price \<times> Order) list" where
  "resting_seq sd b = ladder_orders (heap b) (ladder sd b)"

lemma level_orders_Nil [simp]: "level_orders h p [] = []"
  by (simp add: level_orders_def map_filter_simps)

lemma level_orders_Cons:
  "level_orders h p (a # as) =
     (case h a of None \<Rightarrow> level_orders h p as | Some r \<Rightarrow> (p, r) # level_orders h p as)"
  by (simp add: level_orders_def map_filter_simps split: option.splits)

lemma ladder_orders_Nil [simp]: "ladder_orders h [] = []"
  by (simp add: ladder_orders_def)

lemma ladder_orders_Cons [simp]:
  "ladder_orders h ((p, q) # l) = level_orders h p (queue_orders q) @ ladder_orders h l"
  by (simp add: ladder_orders_def)

lemma level_seq_level_orders:
  "level_seq h p as = map (\<lambda>(p, r). (p, order_id r)) (level_orders h p as)"
  by (induction as) (simp_all add: level_seq_Cons level_orders_Cons split: option.splits)

lemma ladder_seq_ladder_orders:
  "ladder_seq h l = map (\<lambda>(p, r). (p, order_id r)) (ladder_orders h l)"
  by (induction l) (auto simp: level_seq_level_orders)

lemma book_seq_resting_seq:
  "book_seq sd b = map (\<lambda>(p, r). (p, order_id r)) (resting_seq sd b)"
  by (simp add: book_seq_def resting_seq_def ladder_seq_ladder_orders)









subsection \<open>What one pass does to the sequence\<close>





subsection \<open>Trades as fills of the front of the sequence\<close>










subsection \<open>The invariant of the matching loops\<close>









section \<open>Price-time priority of the trades (claim C1)\<close>













section \<open>The index and the queues (claim C10)\<close>

text \<open>
  \<open>OrderBook::add_order\<close> rests an order when something of it remains and its
  time-in-force is neither IOC nor FOK; that is all it tests.
\<close>

definition comes_to_rest :: "Order \<Rightarrow> bool" where
  "comes_to_rest ord' = (remaining_quantity ord' > 0 \<and> \<not> is_ioc ord' \<and> \<not> is_fok ord')"

text \<open>
  The precondition on a request: if it is an \<open>add_order\<close> whose order comes to rest,
  the index does not hold that order's id at the moment it rests (after matching).
\<close>

definition resting_id_fresh :: "OrderBook \<Rightarrow> Request \<Rightarrow> Timestamp \<Rightarrow> bool" where
  "resting_id_fresh b req now =
     (case req of
        AddOrder ord \<Rightarrow>
          (case match_order b ord now of
             Inl e \<Rightarrow> True
           | Inr (ord', trades, b0) \<Rightarrow>
               comes_to_rest ord' \<longrightarrow> orders b0 (order_id ord') = None)
      | CancelOrder oid \<Rightarrow> True
      | ReplaceOrder oid p q \<Rightarrow> True)"

lemma book_inv_new_book: "book_inv (new_book name pol)"
  by (auto simp: book_inv_def new_book_def sorted_ladder_def sorted_keys_def ladder_keys_def
      all_addrs_def placed_def indexed_def ladder_def split: Side.splits)

lemma match_order_book_inv:
  assumes "match_order b ord now = Inr (ord', trades, b0)" and "book_inv b"
  shows "book_inv b0"
proof -
  from assms(1) obtain lim where
    "match_levels lim (opposite (side ord)) now (ord, [], b) = Inr (ord', trades, b0)"
    by (rule match_order_cases)
  with assms(2) show ?thesis
    using match_levels_book_inv by blast
qed

lemma comes_to_rest_run:
  assumes "match_order b ord now = Inr (ord', trades, b0)" and "comes_to_rest ord'"
    and "store_order b0 ord' = (a, b1)"
  shows "add_order_run b ord now = Inr (ord', trades, add_to_book b1 a ord')"
  using assms by (simp add: add_order_run_def comes_to_rest_def)

lemma not_comes_to_rest_run:
  assumes "match_order b ord now = Inr (ord', t0, b0)" and "\<not> comes_to_rest ord'"
    and "add_order_run b ord now = Inr (ord2, trades, b')"
  shows "b' = b0"
  using assms by (auto simp: add_order_run_def comes_to_rest_def split: if_splits)

lemma book_inv_add_order_fresh:
  assumes run: "add_order b ord now = Inr (trades, b')" and inv: "book_inv b"
    and fresh: "resting_id_fresh b (AddOrder ord) now"
  shows "book_inv b'"
proof -
  from run obtain ord2 where r: "add_order_run b ord now = Inr (ord2, trades, b')"
    unfolding add_order_def by (auto split: sum.splits)
  then obtain ord' t0 b0 where m: "match_order b ord now = Inr (ord', t0, b0)"
    unfolding add_order_run_def by (auto split: sum.splits)
  from m inv have inv0: "book_inv b0" by (rule match_order_book_inv)
  show ?thesis
  proof (cases "comes_to_rest ord'")
    case False
    with m r have "b' = b0" by (intro not_comes_to_rest_run)
    with inv0 show ?thesis by simp
  next
    case True
    obtain a b1 where st: "store_order b0 ord' = (a, b1)" by (cases "store_order b0 ord'")
    from m True st have "add_order_run b ord now = Inr (ord', t0, add_to_book b1 a ord')"
      by (rule comes_to_rest_run)
    with r have b': "b' = add_to_book b1 a ord'" by auto
    from fresh m True have "orders b0 (order_id ord') = None"
      by (simp add: resting_id_fresh_def)
    with inv0 show ?thesis
      unfolding b' using st by (rule book_inv_rest)
  qed
qed

lemma book_inv_apply_request:
  assumes "apply_request b req now = Inr (trades, b')" and "book_inv b"
    and "resting_id_fresh b req now"
  shows "book_inv b'"
proof (cases req)
  case (AddOrder ord)
  with assms show ?thesis
    by (simp add: apply_request_def book_inv_add_order_fresh)
next
  case (CancelOrder oid)
  with assms(1) obtain ok where "cancel_order b oid = Inr (ok, b')"
    by (auto simp: apply_request_def split: sum.splits)
  then show ?thesis using assms(2) by (rule book_inv_cancel_order)
next
  case (ReplaceOrder oid p q)
  with assms(1) have "replace_order b oid p q now = Inr (trades, b')"
    by (simp add: apply_request_def)
  then show ?thesis using assms(2) by (rule book_inv_replace_order)
qed

lemma duplicate_id_run:
  assumes inv: "book_inv b" and m: "match_order b ord now = Inr (ord', trades, b0)"
    and rest: "comes_to_rest ord'" and dup: "orders b0 (order_id ord') = Some old"
  shows "\<exists>b2. add_order b ord now = Inr (trades, b2)
            \<and> orders b2 (order_id ord') = Some (next_addr b0)
            \<and> next_addr b0 \<noteq> old
            \<and> heap b2 old = None
            \<and> old \<in> set (all_addrs b2)
            \<and> \<not> book_inv b2"
proof -
  from m inv have inv0: "book_inv b0" by (rule match_order_book_inv)
  obtain a b1 where st: "store_order b0 ord' = (a, b1)" by (cases "store_order b0 ord'")
  let ?b2 = "add_to_book b1 a ord'"
  from m rest st have "add_order_run b ord now = Inr (ord', trades, ?b2)"
    by (rule comes_to_rest_run)
  then have run: "add_order b ord now = Inr (trades, ?b2)"
    by (simp add: add_order_def)
  from inv0 dup have "old \<in> set (all_addrs b0)"
    by (simp add: book_inv_def indexed_def)
  with inv0 have "old < next_addr b0" by (rule queued_is_live)
  then have ne: "next_addr b0 \<noteq> old" by simp
  note broken = duplicate_id_breaks [OF inv0 dup st]
  from run ne broken show ?thesis by blast
qed

text \<open>
  So the index and the queues correspond one to one after every call that returns
  (\<open>book_inv_apply_request\<close>), given fresh ids, and a duplicate id breaks the
  correspondence (\<open>duplicate_id_run\<close>).  Not every call with a fresh id returns,
  though.
\<close>

subsection \<open>A self-trade with the only order of a level\<close>

text \<open>
  Under CANCEL_RESTING: a sell of trader 100 at 10000 (id 1) and a sell of trader 101
  at 10001 (id 2) rest; then trader 100 buys at 10001 (id 3).
\<close>

definition self_trade_book :: OrderBook where
  "self_trade_book =
     \<lparr>book_symbol = ''TEST'', stp_policy = CANCEL_RESTING, bids = [],
      asks = [(10000, \<lparr>queue_orders = [0], total_quantity = 50\<rparr>),
              (10001, \<lparr>queue_orders = [1], total_quantity = 50\<rparr>)],
      orders = [1 \<mapsto> 0, 2 \<mapsto> 1],
      heap = [0 \<mapsto> new_order 1 100 SELL LIMIT 10000 50 DAY,
              1 \<mapsto> new_order 2 101 SELL LIMIT 10001 50 DAY],
      next_addr = 2, next_trade_id = 1, trade_count = 0, total_volume = 0\<rparr>"

lemma book_inv_self_trade_book: "book_inv self_trade_book"
  unfolding book_inv_def placed_def indexed_def
  by (auto simp: self_trade_book_def new_order_def sorted_ladder_def sorted_keys_def
        ladder_def all_addrs_def entries_Cons before_def split: Side.splits if_splits)

lemma fresh_id_self_trade_book:
  "resting_id_fresh self_trade_book (AddOrder (new_order 3 100 BUY LIMIT 10001 50 DAY)) 3"
  by (simp add: resting_id_fresh_def self_trade_book_def book_eval)

text \<open>
  Claim C10.  The three orders have the ids 1, 2 and 3, and before the third call the
  book satisfies \<open>book_inv\<close> (\<open>book_inv_self_trade_book\<close>).  The third call meets
  order 1 at the front of the best ask level, a self-trade; \<open>handle_self_trade\<close>
  cancels it, and since it was the only order of its level, \<open>remove_from_book\<close>
  erases the level: the asks now begin with the level 10001.  The matching loop goes
  on with \<open>queue\<close>, its reference to the level that is gone: the call does not
  complete in the model, and in the source the test \<open>queue.empty()\<close> and the
  \<open>asks_.erase(asks_.begin())\<close> that follows it act on whatever the reference
  reads.
\<close>

theorem self_trade_erases_level_in_use:
  "replay (new_book ''TEST'' CANCEL_RESTING)
     [(AddOrder (new_order 1 100 SELL LIMIT 10000 50 DAY), 1),
      (AddOrder (new_order 2 101 SELL LIMIT 10001 50 DAY), 2)]
     = Inr self_trade_book
   \<and> orders self_trade_book 3 = None
   \<and> ladder SELL
        (snd (handle_self_trade self_trade_book (new_order 3 100 BUY LIMIT 10001 50 DAY) 0
                (new_order 1 100 SELL LIMIT 10000 50 DAY)))
       = [(10001, \<lparr>queue_orders = [1], total_quantity = 50\<rparr>)]
   \<and> apply_request self_trade_book (AddOrder (new_order 3 100 BUY LIMIT 10001 50 DAY)) 3
       = Inl DanglingLevel"
  by (simp add: self_trade_book_def book_eval)

section \<open>The matching engine: cancel and replace requests (claim C8)\<close>

subsection \<open>Result codes, configuration and events\<close>

datatype ResultCode =
  SUCCESS
| REJECTED_INVALID_SYMBOL
| REJECTED_INVALID_PRICE
| REJECTED_INVALID_QUANTITY
| REJECTED_ORDER_NOT_FOUND
| REJECTED_SELF_TRADE
| REJECTED_FOK_NOT_FILLABLE
| REJECTED_RISK_LIMIT
| REJECTED_UNKNOWN_ERROR

fun result_code_to_string :: "ResultCode \<Rightarrow> string" where
  "result_code_to_string SUCCESS = ''SUCCESS''"
| "result_code_to_string REJECTED_INVALID_SYMBOL = ''REJECTED_INVALID_SYMBOL''"
| "result_code_to_string REJECTED_INVALID_PRICE = ''REJECTED_INVALID_PRICE''"
| "result_code_to_string REJECTED_INVALID_QUANTITY = ''REJECTED_INVALID_QUANTITY''"
| "result_code_to_string REJECTED_ORDER_NOT_FOUND = ''REJECTED_ORDER_NOT_FOUND''"
| "result_code_to_string REJECTED_SELF_TRADE = ''REJECTED_SELF_TRADE''"
| "result_code_to_string REJECTED_FOK_NOT_FILLABLE = ''REJECTED_FOK_NOT_FILLABLE''"
| "result_code_to_string REJECTED_RISK_LIMIT = ''REJECTED_RISK_LIMIT''"
| "result_code_to_string REJECTED_UNKNOWN_ERROR = ''REJECTED_UNKNOWN_ERROR''"

record SymbolConfig =
  cfg_symbol :: string
  tick_size :: Price
  lot_size :: Quantity
  min_quantity :: Quantity
  cfg_stp_policy :: STPPolicy

definition config_is_valid :: "SymbolConfig \<Rightarrow> bool" where
  "config_is_valid c =
     (cfg_symbol c \<noteq> [] \<and> 0 < sint (tick_size c) \<and> 0 < lot_size c \<and> 0 < min_quantity c)"

record OrderAcceptedEvent =
  ae_order_id :: OrderId
  ae_symbol :: string
  ae_side :: Side
  ae_price :: Price
  ae_quantity :: Quantity
  ae_timestamp :: Timestamp
  ae_sequence_number :: "64 word"

record OrderRejectedEvent =
  je_order_id :: OrderId
  je_symbol :: string
  je_reason :: ResultCode
  je_message :: string
  je_timestamp :: Timestamp
  je_sequence_number :: "64 word"

record OrderCancelledEvent =
  ce_order_id :: OrderId
  ce_symbol :: string
  ce_remaining_quantity :: Quantity
  ce_timestamp :: Timestamp
  ce_sequence_number :: "64 word"

record OrderReplacedEvent =
  old_order_id :: OrderId
  new_order_id :: OrderId
  re_symbol :: string
  re_new_price :: Price
  re_new_quantity :: Quantity
  re_timestamp :: Timestamp
  re_sequence_number :: "64 word"

text \<open>
  What the engine tells its listeners and writes to its event log, in order: one
  entry for each \<open>notify_\<close> call (each is followed by \<open>event_log_.log_event\<close> of the
  same event).
\<close>

datatype Notification =
  OnOrderAccepted OrderAcceptedEvent
| OnOrderRejected OrderRejectedEvent
| OnOrderCancelled OrderCancelledEvent
| OnOrderReplaced OrderReplacedEvent
| OnTrade TradeEvent

subsection \<open>Requests and responses\<close>

text \<open>
  Modelled from the spec: \<open>messages.hpp\<close>, which declares \<open>CancelRequest\<close>,
  \<open>ReplaceRequest\<close> and \<open>OrderResponse\<close>, is not among the sources.  The request
  fields are those \<open>matching_engine.cpp\<close> reads; the response is
  \<open>OrderResponse { result, message, accepts[], rejects[], cancels[], replaces[],
  trades[] }\<close> of the specification, with the \<open>order_id\<close> the handlers assign.
\<close>

record CancelRequest =
  cr_order_id :: OrderId
  cr_symbol :: string

record ReplaceRequest =
  rr_order_id :: OrderId
  rr_symbol :: string
  rr_new_price :: Price
  rr_new_quantity :: Quantity

record OrderResponse =
  resp_order_id :: OrderId
  result :: ResultCode
  message :: string
  accepts :: "OrderAcceptedEvent list"
  rejects :: "OrderRejectedEvent list"
  cancels :: "OrderCancelledEvent list"
  replaces :: "OrderReplacedEvent list"
  resp_trades :: "TradeEvent list"

subsection \<open>The engine\<close>

text \<open>
  The engine's symbol table, its books, its sequence counter and what it has emitted.
  Telemetry counters, the trade tape and the log of incoming requests are left out:
  no handler reads them.
\<close>

record MatchingEngine =
  symbol_configs :: "string \<rightharpoonup> SymbolConfig"
  order_books :: "string \<rightharpoonup> OrderBook"
  engine_sequence_number :: "64 word"
  notifications :: "Notification list"

datatype engine_fault = BookFault fault | NullBook

definition new_engine :: MatchingEngine where
  "new_engine =
     \<lparr>symbol_configs = Map.empty, order_books = Map.empty, engine_sequence_number = 0,
      notifications = []\<rparr>"

definition has_symbol :: "MatchingEngine \<Rightarrow> string \<Rightarrow> bool" where
  "has_symbol e name = (symbol_configs e name \<noteq> None)"

definition add_symbol :: "MatchingEngine \<Rightarrow> SymbolConfig \<Rightarrow> bool \<times> MatchingEngine" where
  "add_symbol e config =
     (if \<not> config_is_valid config then (False, e)
      else if symbol_configs e (cfg_symbol config) \<noteq> None then (False, e)
      else (True,
            e\<lparr>symbol_configs := (symbol_configs e)(cfg_symbol config \<mapsto> config),
              order_books := (order_books e)(cfg_symbol config \<mapsto>
                               new_book (cfg_symbol config) (cfg_stp_policy config))\<rparr>))"

definition validate_cancel :: "MatchingEngine \<Rightarrow> CancelRequest \<Rightarrow> ResultCode" where
  "validate_cancel e request =
     (if \<not> has_symbol e (cr_symbol request) then REJECTED_INVALID_SYMBOL else SUCCESS)"

definition validate_replace :: "MatchingEngine \<Rightarrow> ReplaceRequest \<Rightarrow> ResultCode" where
  "validate_replace e request =
     (if \<not> has_symbol e (rr_symbol request) then REJECTED_INVALID_SYMBOL
      else if sint (rr_new_price request) \<le> 0 then REJECTED_INVALID_PRICE
      else if rr_new_quantity request = 0 then REJECTED_INVALID_QUANTITY
      else SUCCESS)"

text \<open>
  The loop over the trades of a call: each gets the next sequence number
  (\<open>++sequence_number_\<close>).  Returns the stamped trades and the counter.
\<close>

fun stamp_trades :: "TradeEvent list \<Rightarrow> 64 word \<Rightarrow> TradeEvent list \<times> 64 word" where
  "stamp_trades [] seq = ([], seq)"
| "stamp_trades (t # ts) seq =
     (let (ts', seq') = stamp_trades ts (seq + 1)
      in (t\<lparr>sequence_number := seq + 1\<rparr> # ts', seq'))"

text \<open>
  \<open>handle(const CancelRequest&)\<close>.  \<open>ts\<close> is the reading of the engine's clock for
  the event.  A failed validation emits a reject event; an unknown id emits nothing and
  answers \<open>REJECTED_ORDER_NOT_FOUND\<close>.
\<close>

definition handle_cancel ::
  "MatchingEngine \<Rightarrow> CancelRequest \<Rightarrow> Timestamp \<Rightarrow> engine_fault + OrderResponse \<times> MatchingEngine" where
  "handle_cancel e request ts =
     (let validation = validate_cancel e request in
      if validation \<noteq> SUCCESS then
        let reject_event =
              \<lparr>je_order_id = cr_order_id request, je_symbol = cr_symbol request,
               je_reason = validation, je_message = result_code_to_string validation,
               je_timestamp = ts, je_sequence_number = engine_sequence_number e + 1\<rparr>
        in Inr (\<lparr>resp_order_id = cr_order_id request, result = validation,
                 message = result_code_to_string validation, accepts = [],
                 rejects = [reject_event], cancels = [], replaces = [], resp_trades = []\<rparr>,
                e\<lparr>engine_sequence_number := engine_sequence_number e + 1,
                  notifications := notifications e @ [OnOrderRejected reject_event]\<rparr>)
      else
        (case order_books e (cr_symbol request) of
           None \<Rightarrow> Inl NullBook
         | Some book \<Rightarrow>
             (case cancel_order book (cr_order_id request) of
                Inl f \<Rightarrow> Inl (BookFault f)
              | Inr (cancelled, book') \<Rightarrow>
                  let e1 = e\<lparr>order_books := (order_books e)(cr_symbol request \<mapsto> book')\<rparr> in
                  if cancelled then
                    let cancel_event =
                          \<lparr>ce_order_id = cr_order_id request, ce_symbol = cr_symbol request,
                           ce_remaining_quantity = 0, ce_timestamp = ts,
                           ce_sequence_number = engine_sequence_number e + 1\<rparr>
                    in Inr (\<lparr>resp_order_id = cr_order_id request, result = SUCCESS,
                             message = [], accepts = [], rejects = [],
                             cancels = [cancel_event], replaces = [], resp_trades = []\<rparr>,
                            e1\<lparr>engine_sequence_number := engine_sequence_number e + 1,
                               notifications := notifications e @ [OnOrderCancelled cancel_event]\<rparr>)
                  else
                    Inr (\<lparr>resp_order_id = cr_order_id request,
                          result = REJECTED_ORDER_NOT_FOUND, message = ''Order not found'',
                          accepts = [], rejects = [], cancels = [], replaces = [],
                          resp_trades = []\<rparr>,
                         e1))))"

text \<open>
  \<open>handle(const ReplaceRequest&)\<close>.  \<open>now\<close> is the clock reading inside the book's
  \<open>replace_order\<close>, \<open>ts\<close> the one for the event.  After a successful validation the
  book is called and the replace event is built, stamped and emitted, whatever the book
  did.
\<close>

definition handle_replace ::
  "MatchingEngine \<Rightarrow> ReplaceRequest \<Rightarrow> Timestamp \<Rightarrow> Timestamp
     \<Rightarrow> engine_fault + OrderResponse \<times> MatchingEngine" where
  "handle_replace e request now ts =
     (let validation = validate_replace e request in
      if validation \<noteq> SUCCESS then
        Inr (\<lparr>resp_order_id = rr_order_id request, result = validation,
              message = result_code_to_string validation, accepts = [], rejects = [],
              cancels = [], replaces = [], resp_trades = []\<rparr>,
             e)
      else
        (case order_books e (rr_symbol request) of
           None \<Rightarrow> Inl NullBook
         | Some book \<Rightarrow>
             (case replace_order book (rr_order_id request) (rr_new_price request)
                     (rr_new_quantity request) now of
                Inl f \<Rightarrow> Inl (BookFault f)
              | Inr (trades, book') \<Rightarrow>
                  let replace_event =
                        \<lparr>old_order_id = rr_order_id request,
                         new_order_id = rr_order_id request,
                         re_symbol = rr_symbol request, re_new_price = rr_new_price request,
                         re_new_quantity = rr_new_quantity request, re_timestamp = ts,
                         re_sequence_number = engine_sequence_number e + 1\<rparr>;
                      (trades', seq') = stamp_trades trades (engine_sequence_number e + 1)
                  in Inr (\<lparr>resp_order_id = rr_order_id request, result = SUCCESS,
                           message = [], accepts = [], rejects = [], cancels = [],
                           replaces = [replace_event], resp_trades = trades'\<rparr>,
                          e\<lparr>order_books := (order_books e)(rr_symbol request \<mapsto> book'),
                            engine_sequence_number := seq',
                            notifications := notifications e
                              @ OnOrderReplaced replace_event # map OnTrade trades'\<rparr>))))"

text \<open>The engine with the one symbol TEST and nothing in its book.\<close>

definition test_engine :: MatchingEngine where
  "test_engine =
     snd (add_symbol new_engine
            \<lparr>cfg_symbol = ''TEST'', tick_size = 1, lot_size = 1, min_quantity = 1,
             cfg_stp_policy = CANCEL_INCOMING\<rparr>)"

lemmas engine_eval =
  test_engine_def add_symbol_def new_engine_def config_is_valid_def has_symbol_def
  validate_cancel_def validate_replace_def handle_cancel_def handle_replace_def
  cancel_order_def replace_order_def new_book_def Let_def

subsection \<open>An unknown id\<close>

text \<open>The book's part: an id the index does not hold changes nothing.\<close>

lemma replace_order_unknown_id:
  "orders b oid = None \<Longrightarrow> replace_order b oid p q now = Inr ([], b)"
  by (simp add: replace_order_def)

lemma cancel_order_unknown_id:
  "orders b oid = None \<Longrightarrow> cancel_order b oid = Inr (False, b)"
  by (simp add: cancel_order_def)

text \<open>
  Claim C8.  On the engine with the symbol TEST and an empty book, a replace request
  for the id 999 (price 10000, quantity 50): the book's \<open>replace_order\<close> returns no
  trade and the book as it was, yet the engine answers \<open>SUCCESS\<close> with one
  \<open>OrderReplacedEvent\<close> in \<open>replaces\<close>, advances its sequence counter and notifies
  its listeners of the replacement.  The cancel request for the same id emits nothing
  and answers \<open>REJECTED_ORDER_NOT_FOUND\<close>.
\<close>

theorem replace_unknown_id_emits_event:
  "test_engine
     = \<lparr>symbol_configs = [''TEST'' \<mapsto> \<lparr>cfg_symbol = ''TEST'', tick_size = 1, lot_size = 1,
                                        min_quantity = 1, cfg_stp_policy = CANCEL_INCOMING\<rparr>],
        order_books = [''TEST'' \<mapsto> new_book ''TEST'' CANCEL_INCOMING],
        engine_sequence_number = 0, notifications = []\<rparr>
   \<and> replace_order (new_book ''TEST'' CANCEL_INCOMING) 999 10000 50 7
       = Inr ([], new_book ''TEST'' CANCEL_INCOMING)
   \<and> handle_replace test_engine
        \<lparr>rr_order_id = 999, rr_symbol = ''TEST'', rr_new_price = 10000, rr_new_quantity = 50\<rparr> 7 8
       = Inr (\<lparr>resp_order_id = 999, result = SUCCESS, message = [], accepts = [],
               rejects = [], cancels = [],
               replaces = [\<lparr>old_order_id = 999, new_order_id = 999, re_symbol = ''TEST'',
                            re_new_price = 10000, re_new_quantity = 50, re_timestamp = 8,
                            re_sequence_number = 1\<rparr>],
               resp_trades = []\<rparr>,
              test_engine
                \<lparr>engine_sequence_number := 1,
                 notifications :=
                   [OnOrderReplaced
                      \<lparr>old_order_id = 999, new_order_id = 999, re_symbol = ''TEST'',
                       re_new_price = 10000, re_new_quantity = 50, re_timestamp = 8,
                       re_sequence_number = 1\<rparr>]\<rparr>)
   \<and> handle_cancel test_engine \<lparr>cr_order_id = 999, cr_symbol = ''TEST''\<rparr> 8
       = Inr (\<lparr>resp_order_id = 999, result = REJECTED_ORDER_NOT_FOUND,
               message = ''Order not found'', accepts = [], rejects = [], cancels = [],
               replaces = [], resp_trades = []\<rparr>,
              test_engine)"
  by (simp add: engine_eval)

section \<open>The reference book and the optimized book (claim C5)\<close>

subsection \<open>Depth of the optimized book\<close>

text \<open>
  \<open>OrderBook::get_depth_snapshot\<close>: the first \<open>depth_levels\<close> levels of each map,
  each with the level's \<open>total_quantity_\<close> and the length of its queue; the sequence
  number is the trade count.
\<close>

definition level_view :: "Price \<times> PriceLevelQueue \<Rightarrow> PriceLevel" where
  "level_view = (\<lambda>(p, queue).
     \<lparr>pl_price = p, pl_quantity = total_quantity queue,
      order_count = of_nat (length (queue_orders queue))\<rparr>)"

definition get_depth_snapshot :: "OrderBook \<Rightarrow> nat \<Rightarrow> Timestamp \<Rightarrow> DepthSnapshot" where
  "get_depth_snapshot b depth_levels ts =
     \<lparr>ds_symbol = book_symbol b,
      ds_bids = map level_view (take depth_levels (bids b)),
      ds_asks = map level_view (take depth_levels (asks b)),
      ds_timestamp = ts,
      ds_sequence_number = trade_count b\<rparr>"

subsection \<open>The reference book\<close>

text \<open>All live orders in one vector, in the order they came to rest.\<close>

record ReferenceOrderBook =
  ref_symbol :: string
  ref_stp_policy :: STPPolicy
  ref_orders :: "Order list"
  ref_next_trade_id :: TradeId

definition new_reference_book :: "string \<Rightarrow> STPPolicy \<Rightarrow> ReferenceOrderBook" where
  "new_reference_book name pol =
     \<lparr>ref_symbol = name, ref_stp_policy = pol, ref_orders = [], ref_next_trade_id = 1\<rparr>"

text \<open>\<open>std::find_if\<close> and \<open>erase\<close>: the first order with the id goes.\<close>

fun erase_first :: "OrderId \<Rightarrow> Order list \<Rightarrow> Order list" where
  "erase_first oid [] = []"
| "erase_first oid (x # xs) = (if order_id x = oid then xs else x # erase_first oid xs)"

definition ref_cancel_order :: "ReferenceOrderBook \<Rightarrow> OrderId \<Rightarrow> bool \<times> ReferenceOrderBook" where
  "ref_cancel_order rb oid =
     (if list_ex (\<lambda>x. order_id x = oid) (ref_orders rb)
      then (True, rb\<lparr>ref_orders := erase_first oid (ref_orders rb)\<rparr>)
      else (False, rb))"

definition can_trade :: "Order \<Rightarrow> Order \<Rightarrow> bool" where
  "can_trade incoming resting =
     (if is_market incoming \<or> is_market resting then True
      else if is_buy incoming then sint (price resting) \<le> sint (price incoming)
      else sint (price incoming) \<le> sint (price resting))"

definition ref_would_self_trade :: "ReferenceOrderBook \<Rightarrow> Order \<Rightarrow> Order \<Rightarrow> bool" where
  "ref_would_self_trade rb incoming resting =
     (if ref_stp_policy rb = NONE then False
      else trader_id incoming = trader_id resting \<and> trader_id incoming \<noteq> INVALID_TRADER_ID)"

text \<open>
  \<open>find_best_match\<close>: one pass over the vector with the best candidate so far (its
  position and the order there).  A candidate is replaced by an order at a better
  price, or at the same price with a smaller \<open>timestamp\<close> field.
\<close>

definition better_match :: "Order \<Rightarrow> Order \<Rightarrow> Order \<Rightarrow> bool" where
  "better_match incoming order best =
     (if is_buy incoming
      then sint (price order) < sint (price best)
           \<or> (price order = price best \<and> timestamp order < timestamp best)
      else sint (price best) < sint (price order)
           \<or> (price order = price best \<and> timestamp order < timestamp best))"

fun find_best_from ::
  "Order \<Rightarrow> (nat \<times> Order) list \<Rightarrow> (nat \<times> Order) option \<Rightarrow> (nat \<times> Order) option" where
  "find_best_from incoming [] best = best"
| "find_best_from incoming ((i, order) # rest) best =
     (if side order = side incoming \<or> remaining_quantity order = 0
      then find_best_from incoming rest best
      else if \<not> can_trade incoming order
      then find_best_from incoming rest best
      else (case best of
              None \<Rightarrow> find_best_from incoming rest (Some (i, order))
            | Some (j, cur) \<Rightarrow>
                if better_match incoming order cur
                then find_best_from incoming rest (Some (i, order))
                else find_best_from incoming rest best))"

definition find_best_match :: "Order \<Rightarrow> Order list \<Rightarrow> (nat \<times> Order) option" where
  "find_best_match incoming xs = find_best_from incoming (enumerate 0 xs) None"

definition ref_create_trade ::
  "ReferenceOrderBook \<Rightarrow> Order \<Rightarrow> Order \<Rightarrow> Quantity \<Rightarrow> Price \<Rightarrow> Timestamp
     \<Rightarrow> TradeEvent \<times> ReferenceOrderBook" where
  "ref_create_trade rb aggressive passive qty p ts =
     (\<lparr>trade_id = ref_next_trade_id rb,
       t_symbol = ref_symbol rb,
       t_price = p,
       t_quantity = qty,
       aggressor_side = side aggressive,
       aggressive_order_id = order_id aggressive,
       passive_order_id = order_id passive,
       aggressive_trader_id = trader_id aggressive,
       passive_trader_id = trader_id passive,
       t_timestamp = ts,
       sequence_number = 0\<rparr>,
      rb\<lparr>ref_next_trade_id := ref_next_trade_id rb + 1\<rparr>)"

text \<open>
  One pass through the loop of \<open>ReferenceOrderBook::match_order\<close>, on the incoming
  order, the trades so far and the book: it goes round again or leaves the loop.
\<close>

type_synonym rstate = "Order \<times> TradeEvent list \<times> ReferenceOrderBook"

datatype rstep = Again rstate | Leave rstate

definition ref_trade_step :: "Timestamp \<Rightarrow> nat \<Rightarrow> Order \<Rightarrow> rstate \<Rightarrow> rstate" where
  "ref_trade_step ts i best s =
     (case s of (incoming, trades, rb) \<Rightarrow>
        let trade_qty = min (remaining_quantity incoming) (remaining_quantity best);
            (trade, rb1) = ref_create_trade rb incoming best trade_qty (price best) ts;
            best' = best\<lparr>remaining_quantity := remaining_quantity best - trade_qty\<rparr>;
            rb2 = rb1\<lparr>ref_orders := (ref_orders rb1)[i := best']\<rparr>;
            rb3 = (if remaining_quantity best' = 0
                   then snd (ref_cancel_order rb2 (order_id best')) else rb2)
        in (incoming\<lparr>remaining_quantity := remaining_quantity incoming - trade_qty\<rparr>,
            trades @ [trade], rb3))"

definition ref_match_step :: "Timestamp \<Rightarrow> rstate \<Rightarrow> rstep" where
  "ref_match_step ts s =
     (case s of (incoming, trades, rb) \<Rightarrow>
        if remaining_quantity incoming = 0 then Leave s
        else
          (case find_best_match incoming (ref_orders rb) of
             None \<Rightarrow> Leave s
           | Some (i, best) \<Rightarrow>
               if ref_would_self_trade rb incoming best \<and> ref_stp_policy rb = CANCEL_INCOMING
               then Leave (incoming\<lparr>remaining_quantity := 0\<rparr>, trades, rb)
               else if ref_would_self_trade rb incoming best \<and> ref_stp_policy rb = CANCEL_RESTING
               then Again (incoming, trades, snd (ref_cancel_order rb (order_id best)))
               else if ref_would_self_trade rb incoming best \<and> ref_stp_policy rb = CANCEL_BOTH
               then Leave (incoming\<lparr>remaining_quantity := 0\<rparr>, trades,
                           snd (ref_cancel_order rb (order_id best)))
               else Again (ref_trade_step ts i best s)))"

definition ref_measure :: "rstate \<Rightarrow> nat" where
  "ref_measure s =
     (case s of (incoming, trades, rb) \<Rightarrow>
        unat (remaining_quantity incoming) + length (ref_orders rb))"

lemma length_erase_first: "length (erase_first oid xs) \<le> length xs"
  by (induction xs) auto

lemma length_erase_first_less:
  "x \<in> set xs \<Longrightarrow> order_id x = oid \<Longrightarrow> length (erase_first oid xs) < length xs"
  by (induction xs) auto

lemma length_ref_cancel_order:
  "length (ref_orders (snd (ref_cancel_order rb oid))) \<le> length (ref_orders rb)"
  by (simp add: ref_cancel_order_def length_erase_first)

lemma length_ref_cancel_order_less:
  assumes "x \<in> set (ref_orders rb)" and "order_id x = oid"
  shows "length (ref_orders (snd (ref_cancel_order rb oid))) < length (ref_orders rb)"
proof -
  from assms have "list_ex (\<lambda>x. order_id x = oid) (ref_orders rb)"
    by (auto simp: list_ex_iff)
  with assms show ?thesis
    by (simp add: ref_cancel_order_def length_erase_first_less)
qed

lemma find_best_from_result:
  assumes "find_best_from incoming l best = Some (i, x)"
    and "\<And>j y. best = Some (j, y) \<Longrightarrow> P j y"
    and "\<And>j y. (j, y) \<in> set l \<Longrightarrow> remaining_quantity y \<noteq> 0 \<Longrightarrow> P j y"
  shows "P i x"
  using assms
proof (induction l arbitrary: best)
  case Nil
  then show ?case by simp
next
  case (Cons a rest)
  obtain j order where a: "a = (j, order)" by (cases a)
  have tail: "P k y" if "(k, y) \<in> set rest" "remaining_quantity y \<noteq> 0" for k y
    using that Cons.prems(3) [of k y] by simp
  from Cons.prems(1) consider
      (keep) "find_best_from incoming rest best = Some (i, x)"
    | (take) "remaining_quantity order \<noteq> 0"
        "find_best_from incoming rest (Some (j, order)) = Some (i, x)"
    unfolding a by (auto split: if_splits option.splits)
  then show ?case
  proof cases
    case keep
    show ?thesis
    proof (rule Cons.IH [OF keep])
      fix k y
      assume "best = Some (k, y)"
      then show "P k y" by (rule Cons.prems(2))
    next
      fix k y
      assume "(k, y) \<in> set rest" "remaining_quantity y \<noteq> 0"
      then show "P k y" by (rule tail)
    qed
  next
    case take
    have here: "P j order"
      using Cons.prems(3) [of j order] take(1) a by simp
    show ?thesis
    proof (rule Cons.IH [OF take(2)])
      fix k y
      assume "Some (j, order) = Some (k, y)"
      with here show "P k y" by simp
    next
      fix k y
      assume "(k, y) \<in> set rest" "remaining_quantity y \<noteq> 0"
      then show "P k y" by (rule tail)
    qed
  qed
qed

lemma find_best_match_result:
  assumes "find_best_match incoming xs = Some (i, x)"
  shows "x \<in> set xs" and "remaining_quantity x \<noteq> 0"
proof -
  have "x \<in> set xs \<and> remaining_quantity x \<noteq> 0"
    using assms [unfolded find_best_match_def]
  proof (rule find_best_from_result)
    fix j y
    assume "(j, y) \<in> set (enumerate 0 xs)" and "remaining_quantity y \<noteq> 0"
    then show "y \<in> set xs \<and> remaining_quantity y \<noteq> 0"
      by (auto simp: in_set_enumerate_eq)
  qed simp
  then show "x \<in> set xs" and "remaining_quantity x \<noteq> 0" by simp_all
qed

lemma unat_sub_min_less:
  fixes q r :: "64 word"
  assumes "q \<noteq> 0" and "r \<noteq> 0"
  shows "unat (q - min q r) < unat q"
proof -
  have "min q r \<le> q" by simp
  then have "unat (q - min q r) = unat q - unat (min q r)" by (rule unat_sub)
  moreover from assms have "min q r \<noteq> 0" by (simp add: min_def)
  then have "0 < unat (min q r)" by (simp add: unat_gt_0)
  moreover from assms(1) have "0 < unat q" by (simp add: unat_gt_0)
  ultimately show ?thesis by simp
qed

lemma length_ref_cancel_order_bound:
  "length (ref_orders rb) \<le> n \<Longrightarrow> length (ref_orders (snd (ref_cancel_order rb oid))) \<le> n"
  using length_ref_cancel_order [of rb oid] by simp

lemma ref_trade_step_result:
  "\<exists>incoming' trades' rb'.
     ref_trade_step ts i best (incoming, trades, rb) = (incoming', trades', rb')
     \<and> remaining_quantity incoming'
         = remaining_quantity incoming
           - min (remaining_quantity incoming) (remaining_quantity best)
     \<and> length (ref_orders rb') \<le> length (ref_orders rb)"
  by (simp add: ref_trade_step_def ref_create_trade_def Let_def length_ref_cancel_order_bound)

lemma ref_trade_step_decreases:
  assumes "remaining_quantity incoming \<noteq> 0" and "remaining_quantity best \<noteq> 0"
  shows "ref_measure (ref_trade_step ts i best (incoming, trades, rb))
           < ref_measure (incoming, trades, rb)"
proof -
  let ?tq = "min (remaining_quantity incoming) (remaining_quantity best)"
  obtain incoming' trades' rb' where
    r: "ref_trade_step ts i best (incoming, trades, rb) = (incoming', trades', rb')"
    and q: "remaining_quantity incoming' = remaining_quantity incoming - ?tq"
    and l: "length (ref_orders rb') \<le> length (ref_orders rb)"
    using ref_trade_step_result [of ts i best incoming trades rb] by blast
  from assms have "unat (remaining_quantity incoming - ?tq) < unat (remaining_quantity incoming)"
    by (rule unat_sub_min_less)
  with l show ?thesis
    unfolding r ref_measure_def by (simp add: q)
qed

lemma ref_match_step_decreases:
  assumes "ref_match_step ts s = Again s'"
  shows "ref_measure s' < ref_measure s"
proof -
  obtain incoming trades rb where s: "s = (incoming, trades, rb)" by (cases s)
  from assms have nz: "remaining_quantity incoming \<noteq> 0"
    unfolding s ref_match_step_def by (auto split: if_splits)
  with assms obtain i best where f: "find_best_match incoming (ref_orders rb) = Some (i, best)"
    unfolding s ref_match_step_def by (auto split: if_splits option.splits)
  then have mem: "best \<in> set (ref_orders rb)" and bz: "remaining_quantity best \<noteq> 0"
    by (rule find_best_match_result)+
  from assms nz f consider
      (resting) "s' = (incoming, trades, snd (ref_cancel_order rb (order_id best)))"
    | (trade) "s' = ref_trade_step ts i best (incoming, trades, rb)"
    unfolding s ref_match_step_def by (auto split: if_splits)
  then show ?thesis
  proof cases
    case resting
    with mem show ?thesis
      unfolding s ref_measure_def
      using length_ref_cancel_order_less [of best rb "order_id best"] by simp
  next
    case trade
    with nz bz show ?thesis
      unfolding s by (simp add: ref_trade_step_decreases)
  qed
qed

function ref_match_order :: "Timestamp \<Rightarrow> rstate \<Rightarrow> rstate" where
  "ref_match_order ts s =
     (case ref_match_step ts s of
        Again s' \<Rightarrow> ref_match_order ts s'
      | Leave s' \<Rightarrow> s')"
  by pat_completeness auto
termination
  by (relation "measure (\<lambda>(ts, s). ref_measure s)")
     (auto simp: ref_match_step_decreases)

declare ref_match_order.simps [simp del]

text \<open>
  \<open>ReferenceOrderBook::add_order\<close>, \<open>replace_order\<close>.  The replacement is a
  default-constructed \<open>Order\<close> with the id, the price and the two quantities set.
\<close>

definition ref_add_order ::
  "ReferenceOrderBook \<Rightarrow> Order \<Rightarrow> Timestamp \<Rightarrow> TradeEvent list \<times> ReferenceOrderBook" where
  "ref_add_order rb ord now =
     (case ref_match_order now (ord, [], rb) of (ord', trades, rb') \<Rightarrow>
        if remaining_quantity ord' > 0 then
          if is_ioc ord' then (trades, rb')
          else if is_fok ord' then ([], rb')
          else (trades, rb'\<lparr>ref_orders := ref_orders rb' @ [ord']\<rparr>)
        else (trades, rb'))"

definition default_order :: Order where
  "default_order =
     \<lparr>order_id = 0, trader_id = INVALID_TRADER_ID, symbol = [], side = BUY,
      order_type = LIMIT, price = INVALID_PRICE, quantity = 0, remaining_quantity = 0,
      time_in_force = DAY, timestamp = 0, post_only = False, hidden = False,
      display_quantity = 0\<rparr>"

definition ref_replace_order ::
  "ReferenceOrderBook \<Rightarrow> OrderId \<Rightarrow> Price \<Rightarrow> Quantity \<Rightarrow> Timestamp
     \<Rightarrow> TradeEvent list \<times> ReferenceOrderBook" where
  "ref_replace_order rb oid new_price new_quantity now =
     (case ref_cancel_order rb oid of
        (False, rb') \<Rightarrow> ([], rb')
      | (True, rb') \<Rightarrow>
          ref_add_order rb'
            (default_order\<lparr>order_id := oid, price := new_price, quantity := new_quantity,
               remaining_quantity := new_quantity\<rparr>)
            now)"

text \<open>
  \<open>ReferenceOrderBook::get_depth_snapshot\<close>: the remaining quantities added up by
  price in a \<open>std::map\<close> for each side, then the first \<open>depth_levels\<close> entries of
  each; \<open>order_count\<close> is always 1 and the sequence number stays 0.
\<close>

fun quantity_add :: "Side \<Rightarrow> Price \<Rightarrow> Quantity \<Rightarrow> (Price \<times> Quantity) list \<Rightarrow> (Price \<times> Quantity) list" where
  "quantity_add sd p q [] = [(p, q)]"
| "quantity_add sd p q ((p', q') # l) =
     (if p' = p then (p', q' + q) # l
      else if before sd p p' then (p, q) # (p', q') # l
      else (p', q') # quantity_add sd p q l)"

definition aggregate :: "Side \<Rightarrow> Order list \<Rightarrow> (Price \<times> Quantity) list" where
  "aggregate sd xs =
     fold (\<lambda>x m. if side x = sd \<and> remaining_quantity x > 0
                  then quantity_add sd (price x) (remaining_quantity x) m else m) xs []"

definition ref_level_view :: "Price \<times> Quantity \<Rightarrow> PriceLevel" where
  "ref_level_view = (\<lambda>(p, q). \<lparr>pl_price = p, pl_quantity = q, order_count = 1\<rparr>)"

definition ref_get_depth_snapshot :: "ReferenceOrderBook \<Rightarrow> nat \<Rightarrow> Timestamp \<Rightarrow> DepthSnapshot" where
  "ref_get_depth_snapshot rb depth_levels ts =
     \<lparr>ds_symbol = ref_symbol rb,
      ds_bids = map ref_level_view (take depth_levels (aggregate BUY (ref_orders rb))),
      ds_asks = map ref_level_view (take depth_levels (aggregate SELL (ref_orders rb))),
      ds_timestamp = ts,
      ds_sequence_number = 0\<rparr>"

subsection \<open>The same stream on both books\<close>

text \<open>
  What \<open>EngineValidator\<close> does: both books are made with the same symbol and policy,
  every request goes to both, the trades are compared field by field and the depth
  snapshots (10 levels, timestamp 0) level by level.  \<open>run_optimized\<close> and
  \<open>run_reference\<close> give the trades of a stream, in order, as the tuples that are
  compared, and the depth snapshot at its end.
\<close>

type_synonym trade_tuple = "TradeId \<times> Price \<times> Quantity \<times> OrderId \<times> OrderId \<times> Side"

definition trade_tuple :: "TradeEvent \<Rightarrow> trade_tuple" where
  "trade_tuple t =
     (trade_id t, t_price t, t_quantity t, aggressive_order_id t, passive_order_id t,
      aggressor_side t)"

fun replay_trades ::
  "OrderBook \<Rightarrow> (Request \<times> Timestamp) list \<Rightarrow> fault + TradeEvent list \<times> OrderBook" where
  "replay_trades b [] = Inr ([], b)"
| "replay_trades b ((req, now) # rs) =
     (case apply_request b req now of
        Inl e \<Rightarrow> Inl e
      | Inr (trades, b') \<Rightarrow>
          (case replay_trades b' rs of
             Inl e \<Rightarrow> Inl e
           | Inr (later, b'') \<Rightarrow> Inr (trades @ later, b'')))"

definition ref_apply_request ::
  "ReferenceOrderBook \<Rightarrow> Request \<Rightarrow> Timestamp \<Rightarrow> TradeEvent list \<times> ReferenceOrderBook" where
  "ref_apply_request rb req now =
     (case req of
        AddOrder ord \<Rightarrow> ref_add_order rb ord now
      | CancelOrder oid \<Rightarrow> ([], snd (ref_cancel_order rb oid))
      | ReplaceOrder oid p q \<Rightarrow> ref_replace_order rb oid p q now)"

fun ref_replay_trades ::
  "ReferenceOrderBook \<Rightarrow> (Request \<times> Timestamp) list \<Rightarrow> TradeEvent list \<times> ReferenceOrderBook" where
  "ref_replay_trades rb [] = ([], rb)"
| "ref_replay_trades rb ((req, now) # rs) =
     (case ref_apply_request rb req now of (trades, rb') \<Rightarrow>
        (case ref_replay_trades rb' rs of (later, rb'') \<Rightarrow> (trades @ later, rb'')))"

definition run_optimized ::
  "string \<Rightarrow> STPPolicy \<Rightarrow> (Request \<times> Timestamp) list \<Rightarrow> fault + trade_tuple list \<times> DepthSnapshot" where
  "run_optimized name pol reqs =
     (case replay_trades (new_book name pol) reqs of
        Inl e \<Rightarrow> Inl e
      | Inr (trades, b) \<Rightarrow> Inr (map trade_tuple trades, get_depth_snapshot b 10 0))"

definition run_reference ::
  "string \<Rightarrow> STPPolicy \<Rightarrow> (Request \<times> Timestamp) list \<Rightarrow> trade_tuple list \<times> DepthSnapshot" where
  "run_reference name pol reqs =
     (case ref_replay_trades (new_reference_book name pol) reqs of
        (trades, rb) \<Rightarrow> (map trade_tuple trades, ref_get_depth_snapshot rb 10 0))"

text \<open>
  Two streams.  A sell of 100 at 10000, then a buy of 50 at the same price, which fills
  half of it.  And: a buy of 100 at 10000, a sell of 50 at 10005 that rests, and the
  sell replaced by one of 50 at 10000.
\<close>

definition partial_fill_stream :: "(Request \<times> Timestamp) list" where
  "partial_fill_stream =
     [(AddOrder (new_order 1 100 SELL LIMIT 10000 100 DAY), 1),
      (AddOrder (new_order 2 101 BUY LIMIT 10000 50 DAY), 2)]"

definition replace_stream :: "(Request \<times> Timestamp) list" where
  "replace_stream =
     [(AddOrder (new_order 1 100 BUY LIMIT 10000 100 DAY), 1),
      (AddOrder (new_order 2 101 SELL LIMIT 10005 50 DAY), 2),
      (ReplaceOrder 2 10000 50, 3)]"

lemmas reference_eval =
  run_optimized_def run_reference_def partial_fill_stream_def replace_stream_def
  ref_apply_request_def ref_add_order_def ref_replace_order_def ref_cancel_order_def
  ref_match_order.simps ref_match_step_def ref_trade_step_def ref_create_trade_def
  ref_would_self_trade_def find_best_match_def can_trade_def better_match_def
  new_reference_book_def default_order_def get_depth_snapshot_def level_view_def
  ref_get_depth_snapshot_def ref_level_view_def aggregate_def trade_tuple_def
  INVALID_PRICE_def

text \<open>
  Claim C5.  On the first stream both books produce the same trade, and then the
  optimized book shows 100 at the ask level 10000 (its \<open>total_quantity_\<close> is not
  reduced by a fill) where the reference shows the 50 that remain.  On the second
  stream the optimized book trades the replacement sell against the resting buy; the
  reference book's replacement is a buy (the default side), trades with nothing and
  rests as a second bid.
\<close>

theorem optimized_differs_from_reference:
  "run_optimized ''TEST'' NONE partial_fill_stream
     = Inr ([(1, 10000, 50, 2, 1, BUY)],
            \<lparr>ds_symbol = ''TEST'', ds_bids = [],
             ds_asks = [\<lparr>pl_price = 10000, pl_quantity = 100, order_count = 1\<rparr>],
             ds_timestamp = 0, ds_sequence_number = 1\<rparr>)
   \<and> run_reference ''TEST'' NONE partial_fill_stream
     = ([(1, 10000, 50, 2, 1, BUY)],
        \<lparr>ds_symbol = ''TEST'', ds_bids = [],
         ds_asks = [\<lparr>pl_price = 10000, pl_quantity = 50, order_count = 1\<rparr>],
         ds_timestamp = 0, ds_sequence_number = 0\<rparr>)
   \<and> run_optimized ''TEST'' NONE replace_stream
     = Inr ([(1, 10000, 50, 2, 1, SELL)],
            \<lparr>ds_symbol = ''TEST'',
             ds_bids = [\<lparr>pl_price = 10000, pl_quantity = 100, order_count = 1\<rparr>],
             ds_asks = [],
             ds_timestamp = 0, ds_sequence_number = 1\<rparr>)
   \<and> run_reference ''TEST'' NONE replace_stream
     = ([],
        \<lparr>ds_symbol = ''TEST'',
         ds_bids = [\<lparr>pl_price = 10000, pl_quantity = 150, order_count = 1\<rparr>],
         ds_asks = [],
         ds_timestamp = 0, ds_sequence_number = 0\<rparr>)"
  by (simp add: reference_eval book_eval enumerate_simps)

subsection \<open>Reading back what was written\<close>

lemma bit_byte_at32:
  "bit (push_bit k (ucast (ucast (drop_bit k (w :: 32 word)) :: byte)) :: 32 word) n
     = (k \<le> n \<and> n < k + 8 \<and> n < 32 \<and> bit w n)"
  by (auto simp add: bit_simps)

lemma bit_byte_low32:
  "bit (ucast (ucast (w :: 32 word) :: byte) :: 32 word) n = (n < 8 \<and> bit w n)"
  by (auto simp add: bit_simps)

lemma rd32_be32 [simp]: "rd32 (be32 w) = w"
proof (rule bit_word_eqI)
  fix n assume "n < LENGTH(32)"
  then have n: "n < 32" by simp
  have "bit (rd32 (be32 w)) n = (n < 32 \<and> bit w n)"
    unfolding rd32_def be32_def
    apply (simp only: list.case bit_or_iff bit_byte_at32 bit_byte_low32)
    using n apply auto
    done
  then show "bit (rd32 (be32 w)) n = bit w n" using n by simp
qed

lemma bit_byte_at64:
  "bit (push_bit k (ucast (ucast (drop_bit k (w :: 64 word)) :: byte)) :: 64 word) n
     = (k \<le> n \<and> n < k + 8 \<and> n < 64 \<and> bit w n)"
  by (auto simp add: bit_simps)

lemma bit_byte_low64:
  "bit (ucast (ucast (w :: 64 word) :: byte) :: 64 word) n = (n < 8 \<and> bit w n)"
  by (auto simp add: bit_simps)

lemma rd64_be64 [simp]: "rd64 (be64 w) = w"
proof (rule bit_word_eqI)
  fix n assume "n < LENGTH(64)"
  then have n: "n < 64" by simp
  have "bit (rd64 (be64 w)) n = (n < 64 \<and> bit w n)"
    unfolding rd64_def be64_def
    apply (simp only: list.case bit_or_iff bit_byte_at64 bit_byte_low64)
    using n apply auto
    done
  then show "bit (rd64 (be64 w)) n = bit w n" using n by simp
qed

lemma length_be16 [simp]: "length (be16 w) = 2"
  by (simp add: be16_def)

lemma length_be32 [simp]: "length (be32 w) = 4"
  by (simp add: be32_def)

lemma length_be64 [simp]: "length (be64 w) = 8"
  by (simp add: be64_def)

lemma length_write_level [simp]: "length (write_level l) = 16"
  by (simp add: write_level_def)

lemma length_write_header [simp]: "length (write_header s) = 32"
  by (simp add: write_header_def)

lemma length_concat_levels [simp]: "length (concat (map write_level ls)) = 16 * length ls"
  by (induction ls) simp_all

lemma char_of_byte_of_char [simp]: "char_of_byte (byte_of_char c) = c"
proof -
  have "(of_char c :: byte) = of_nat (of_char c)"
    by (simp only: of_nat_of_char)
  then have "unat (of_char c :: byte) = of_char c mod 256"
    by (simp add: unat_of_nat)
  then show ?thesis
    unfolding char_of_byte_def byte_of_char_def by simp
qed

lemma bytes_at_append_left:
  "off + n \<le> length xs \<Longrightarrow> bytes_at (xs @ ys) off n = bytes_at xs off n"
  by (simp add: bytes_at_def)

lemma bytes_at_append_right:
  "length xs \<le> off \<Longrightarrow> bytes_at (xs @ ys) off n = bytes_at ys (off - length xs) n"
  by (simp add: bytes_at_def)

lemma bytes_at_exact: "length xs = n \<Longrightarrow> bytes_at (xs @ ys) 0 n = xs"
  by (simp add: bytes_at_def)


lemma hdr_magic: "bytes_at (write_header s @ rest) 0 4 = be32 0x4C4F4231"
  by (simp add: bytes_at_def write_header_def)

lemma hdr_nb: "bytes_at (write_header s @ rest) 8 4 = be32 (of_nat (length (ds_bids s)))"
  by (simp add: bytes_at_def write_header_def be32_def be16_def)

lemma hdr_na: "bytes_at (write_header s @ rest) 12 4 = be32 (of_nat (length (ds_asks s)))"
  by (simp add: bytes_at_def write_header_def be32_def be16_def)

lemma hdr_ts: "bytes_at (write_header s @ rest) 16 8 = be64 (ds_timestamp s)"
  by (simp add: bytes_at_def write_header_def be32_def be16_def)

lemma hdr_sq: "bytes_at (write_header s @ rest) 24 8 = be64 (ds_sequence_number s)"
  by (simp add: bytes_at_def write_header_def be32_def be16_def be64_def)

lemma hdr_sl: "(write_header s @ rest) ! 6 = of_nat (length (ds_symbol s))"
  by (simp add: write_header_def be32_def be16_def nth_append)

lemma read_levels_written:
  "length pre = off \<Longrightarrow>
   read_levels (length ls) off (pre @ concat (map write_level ls) @ rest)
     = (map reset_count ls, off + 16 * length ls)"
proof (induction ls arbitrary: pre off)
  case Nil
  then show ?case by simp
next
  case (Cons l ls)
  have "read_levels (length ls) (off + 16) ((pre @ write_level l) @ concat (map write_level ls) @ rest)
     = (map reset_count ls, (off + 16) + 16 * length ls)"
    by (rule Cons.IH) (simp add: Cons.prems)
  moreover have "bytes_at (pre @ write_level l @ concat (map write_level ls) @ rest) off 8 = be64 (pl_price l)"
    using Cons.prems by (simp add: bytes_at_def write_level_def)
  moreover have "bytes_at (pre @ write_level l @ concat (map write_level ls) @ rest) (off + 8) 8 = be64 (pl_quantity l)"
    using Cons.prems by (simp add: bytes_at_def write_level_def)
  ultimately show ?case using Cons.prems
    by (simp add: reset_count_def)
qed

text \<open>
  Claim C9, as the code has it.  For a snapshot whose symbol is shorter than 256 bytes
  (it must fit the one-byte \<open>symbol_len\<close>) and which has fewer than \<open>2^32\<close> levels
  on each side (the counts are cast to \<open>uint32_t\<close>), decoding the binary encoding
  gives back the symbol, the timestamp, the sequence number and the bid and ask levels
  with their prices and quantities; every \<open>order_count\<close> comes back as 0.
\<close>

theorem from_binary_to_binary:
  assumes sym: "length (ds_symbol s) < 256"
    and nb: "length (ds_bids s) < 2 ^ 32"
    and na: "length (ds_asks s) < 2 ^ 32"
  shows "from_binary (to_binary s) =
           Inr \<lparr>ds_symbol = ds_symbol s,
                ds_bids = map reset_count (ds_bids s),
                ds_asks = map reset_count (ds_asks s),
                ds_timestamp = ds_timestamp s,
                ds_sequence_number = ds_sequence_number s\<rparr>"
proof -
  define body where
    "body = map byte_of_char (ds_symbol s) @ concat (map write_level (ds_bids s)) @
            concat (map write_level (ds_asks s)) @ [0, 0, 0, 0]"
  define data where "data = write_header s @ body"
  have data: "to_binary s = data"
    by (simp add: to_binary_def data_def body_def)
  have len: "length data = 32 + length (ds_symbol s) + 16 * length (ds_bids s) + 16 * length (ds_asks s) + 4"
    by (simp add: data_def body_def)
  have magic: "rd32 (bytes_at data 0 4) = 0x4C4F4231"
    unfolding data_def hdr_magic by simp
  have ts: "rd64 (bytes_at data 16 8) = ds_timestamp s"
    unfolding data_def hdr_ts by simp
  have sq: "rd64 (bytes_at data 24 8) = ds_sequence_number s"
    unfolding data_def hdr_sq by simp
  have nbids: "unat (rd32 (bytes_at data 8 4)) = length (ds_bids s)"
    unfolding data_def hdr_nb using nb by (simp add: unat_of_nat)
  have nasks: "unat (rd32 (bytes_at data 12 4)) = length (ds_asks s)"
    unfolding data_def hdr_na using na by (simp add: unat_of_nat)
  have slen: "unat (data ! 6) = length (ds_symbol s)"
    unfolding data_def hdr_sl using sym by (simp add: unat_of_nat)
  have symb: "map char_of_byte (bytes_at data 32 (length (ds_symbol s))) = ds_symbol s"
    by (simp add: data_def body_def bytes_at_def comp_def)
  have rb: "read_levels (length (ds_bids s)) (32 + length (ds_symbol s)) data
              = (map reset_count (ds_bids s), 32 + length (ds_symbol s) + 16 * length (ds_bids s))"
  proof -
    have "data = (write_header s @ map byte_of_char (ds_symbol s)) @
                   concat (map write_level (ds_bids s)) @ (concat (map write_level (ds_asks s)) @ [0, 0, 0, 0])"
      by (simp add: data_def body_def)
    moreover have "length (write_header s @ map byte_of_char (ds_symbol s)) = 32 + length (ds_symbol s)"
      by simp
    ultimately show ?thesis
      using read_levels_written by metis
  qed
  have ra: "read_levels (length (ds_asks s)) (32 + length (ds_symbol s) + 16 * length (ds_bids s)) data
              = (map reset_count (ds_asks s),
                 32 + length (ds_symbol s) + 16 * length (ds_bids s) + 16 * length (ds_asks s))"
  proof -
    have "data = (write_header s @ map byte_of_char (ds_symbol s) @ concat (map write_level (ds_bids s))) @
                   concat (map write_level (ds_asks s)) @ [0, 0, 0, 0]"
      by (simp add: data_def body_def)
    moreover have "length (write_header s @ map byte_of_char (ds_symbol s) @ concat (map write_level (ds_bids s)))
                     = 32 + length (ds_symbol s) + 16 * length (ds_bids s)"
      by simp
    ultimately show ?thesis
      using read_levels_written by metis
  qed
  show ?thesis
    unfolding data from_binary_def
    by (simp add: magic ts sq nbids nasks slen symb rb ra len)
qed

lemma bytes_at_zero: "bytes_at data off 0 = []"
  by (simp add: bytes_at_def)

text \<open>
  Claim C9 as stated, for every snapshot, fails: \<open>symbol_len\<close> of a 256-byte symbol
  is 0 and the decoded symbol is empty.
\<close>

theorem long_symbol_lost:
  "from_binary (to_binary long_symbol_snapshot) =
     Inr \<lparr>ds_symbol = [], ds_bids = [], ds_asks = [], ds_timestamp = 7, ds_sequence_number = 3\<rparr>
   \<and> ds_symbol long_symbol_snapshot \<noteq> []"
proof -
  define data where "data = to_binary long_symbol_snapshot"
  have d: "data = write_header long_symbol_snapshot @ (map byte_of_char (replicate 256 CHR ''A'') @ [0,0,0,0])"
    by (simp add: data_def to_binary_def long_symbol_snapshot_def)
  have len: "length data = 292" unfolding d by simp
  have magic: "rd32 (bytes_at data 0 4) = 0x4C4F4231"
    unfolding d hdr_magic by simp
  have ts: "rd64 (bytes_at data 16 8) = 7"
    unfolding d hdr_ts by (simp add: long_symbol_snapshot_def)
  have sq: "rd64 (bytes_at data 24 8) = 3"
    unfolding d hdr_sq by (simp add: long_symbol_snapshot_def)
  have nbids: "unat (rd32 (bytes_at data 8 4)) = 0"
    unfolding d hdr_nb by (simp add: long_symbol_snapshot_def)
  have nasks: "unat (rd32 (bytes_at data 12 4)) = 0"
    unfolding d hdr_na by (simp add: long_symbol_snapshot_def)
  have slen: "unat (data ! 6) = 0"
    unfolding d hdr_sl by (simp add: long_symbol_snapshot_def)
  have "from_binary data =
     Inr \<lparr>ds_symbol = [], ds_bids = [], ds_asks = [], ds_timestamp = 7, ds_sequence_number = 3\<rparr>"
    unfolding from_binary_def
    by (simp add: magic ts sq nbids nasks slen len bytes_at_zero)
  moreover have "ds_symbol long_symbol_snapshot \<noteq> []"
    by (simp add: long_symbol_snapshot_def)
  ultimately show ?thesis
    unfolding data_def by simp
qed

text \<open>The round trip at a snapshot with a bid and an ask level.\<close>

theorem from_binary_to_binary_witness:
  "length ''TEST'' < 256
   \<and> from_binary (to_binary
        \<lparr>ds_symbol = ''TEST'',
         ds_bids = [\<lparr>pl_price = 9999, pl_quantity = 150, order_count = 2\<rparr>],
         ds_asks = [\<lparr>pl_price = 10001, pl_quantity = 40, order_count = 1\<rparr>],
         ds_timestamp = 5, ds_sequence_number = 1\<rparr>) =
       Inr \<lparr>ds_symbol = ''TEST'',
            ds_bids = [\<lparr>pl_price = 9999, pl_quantity = 150, order_count = 0\<rparr>],
            ds_asks = [\<lparr>pl_price = 10001, pl_quantity = 40, order_count = 0\<rparr>],
            ds_timestamp = 5, ds_sequence_number = 1\<rparr>"
  using from_binary_to_binary
          [of "\<lparr>ds_symbol = ''TEST'',
                ds_bids = [\<lparr>pl_price = 9999, pl_quantity = 150, order_count = 2\<rparr>],
                ds_asks = [\<lparr>pl_price = 10001, pl_quantity = 40, order_count = 1\<rparr>],
                ds_timestamp = 5, ds_sequence_number = 1\<rparr>"]
  by (simp add: reset_count_def)

end
